theory Spec2Isabelle
  imports Main "HOL-Library.Word"
begin

unbundle bit_operations_syntax

section \<open>Bytes, sizes and the byte-order helpers\<close>

text \<open>
  The record layer of \<^verbatim>\<open>src/lib/tls/tls_record.cpp\<close> works on byte vectors
  (\<^verbatim>\<open>secure_vector<uint8_t>\<close>, \<^verbatim>\<open>std::vector<uint8_t>\<close>), 16 and 64 bit unsigned
  integers and \<^verbatim>\<open>size_t\<close> lengths. Bytes and fixed-width integers are words; lengths
  are natural numbers (every length the readers compute is below \<open>2^16 + 13\<close>, and the
  one \<^verbatim>\<open>size_t\<close> subtraction of \<^verbatim>\<open>decrypt_record\<close> is discussed where it is modelled).
\<close>

type_synonym u8 = "8 word"
type_synonym u16 = "16 word"
type_synonym u64 = "64 word"

text \<open>
  Modelled from the spec: the constants of \<^verbatim>\<open>tls_magic.h\<close>, which is not part of the
  sources at hand. Section 6 of the specification gives \<open>TLS_HEADER_SIZE = 5\<close>,
  \<open>DTLS_HEADER_SIZE = 13\<close> and \<open>MAX_CIPHERTEXT_SIZE = 2^14 + 2048\<close>.
\<close>

definition TLS_HEADER_SIZE :: nat where
  "TLS_HEADER_SIZE = 5"

definition DTLS_HEADER_SIZE :: nat where
  "DTLS_HEADER_SIZE = 13"

definition MAX_CIPHERTEXT_SIZE :: nat where
  "MAX_CIPHERTEXT_SIZE = 2 ^ 14 + 2048"

text \<open>
  Modelled from the spec: the helpers of \<^verbatim>\<open>loadstor.h\<close> and \<^verbatim>\<open>mem_ops.h\<close>
  (\<^verbatim>\<open>get_byte\<close>, \<^verbatim>\<open>store_be\<close>, \<^verbatim>\<open>load_be\<close>, \<^verbatim>\<open>make_uint16\<close>, \<^verbatim>\<open>xor_buf\<close>, \<^verbatim>\<open>copy_mem\<close>),
  which are not part of the sources at hand. The specification fixes the byte order:
  every multi-byte field is big-endian, so byte \<open>0\<close> of \<^verbatim>\<open>get_byte\<close> is the most
  significant one.
\<close>

definition get_byte_u16 :: "nat \<Rightarrow> u16 \<Rightarrow> u8" where
  "get_byte_u16 i x = ucast (drop_bit (8 * (1 - i)) x)"

definition get_byte_u64 :: "nat \<Rightarrow> u64 \<Rightarrow> u8" where
  "get_byte_u64 i x = ucast (drop_bit (8 * (7 - i)) x)"

definition store_be :: "u64 \<Rightarrow> u8 list" where
  "store_be x = map (\<lambda>i. get_byte_u64 i x) [0..<8]"

definition make_uint16 :: "u8 \<Rightarrow> u8 \<Rightarrow> u16" where
  "make_uint16 i0 i1 = push_bit 8 (ucast i0) OR ucast i1"

definition load_be :: "u8 list \<Rightarrow> u64" where
  "load_be bs = foldl (\<lambda>acc b. push_bit 8 acc OR ucast b) 0 (take 8 bs)"

text \<open>
  \<^verbatim>\<open>copy_mem(&out[off], in, n)\<close> and \<^verbatim>\<open>store_be(x, &out[off])\<close> overwrite the bytes
  \<open>off ..< off + n\<close> of a vector that is long enough; \<open>copy_at\<close> is that overwrite.
  \<^verbatim>\<open>xor_buf(out, in, n)\<close> xors the first \<open>n\<close> bytes of \<open>in\<close> into \<open>out\<close>.
  Both assume what the C++ assumes: the target range lies inside the vector.
\<close>

definition copy_at :: "nat \<Rightarrow> u8 list \<Rightarrow> u8 list \<Rightarrow> u8 list" where
  "copy_at off src out = take off out @ src @ drop (off + length src) out"

definition xor_buf :: "u8 list \<Rightarrow> u8 list \<Rightarrow> nat \<Rightarrow> u8 list" where
  "xor_buf out inp n =
     map (\<lambda>i. if i < n then (out ! i) XOR (inp ! i) else out ! i) [0..<length out]"

section \<open>Data model\<close>

record Protocol_Version =
  major_version :: u8
  minor_version :: u8

text \<open>
  Modelled from the spec: \<^verbatim>\<open>Protocol_Version::is_datagram_protocol\<close> (in
  \<^verbatim>\<open>tls_version.cpp\<close>, not part of the sources at hand). Section 3: the predicate is
  true exactly when \<open>major = 254\<close>.
\<close>

definition is_datagram_protocol :: "Protocol_Version \<Rightarrow> bool" where
  "is_datagram_protocol v = (major_version v = 254)"

text \<open>
  \<^verbatim>\<open>Record_Type\<close> is an enumeration that the readers fill by
  \<^verbatim>\<open>static_cast<Record_Type>(readbuf[0])\<close>, so every byte is a value of it, and
  \<^verbatim>\<open>NO_RECORD\<close> is the sentinel that no byte of the wire produces.
\<close>

datatype Record_Type = Wire_Type u8 | NO_RECORD

text \<open>
  \<^verbatim>\<open>static_cast<uint8_t>(record_type)\<close> of \<^verbatim>\<open>decrypt_record\<close>. The readers call
  \<^verbatim>\<open>decrypt_record\<close> with the type they have just read from byte 0, never with the
  sentinel; its numeric value lives in a header that is not part of the sources, the
  cast gives it \<open>0\<close> here.
\<close>

fun record_type_byte :: "Record_Type \<Rightarrow> u8" where
  "record_type_byte (Wire_Type b) = b"
| "record_type_byte NO_RECORD = 0"

datatype Alert = BAD_RECORD_MAC | PROTOCOL_VERSION | RECORD_OVERFLOW | DECODE_ERROR

text \<open>
  Every exception is a value. \<open>TLS_Exception\<close>, \<open>Decoding_Error\<close> and
  \<open>Invalid_State\<close> are thrown by the code of this file; \<open>Internal_Error\<close> is a
  failed \<^verbatim>\<open>BOTAN_ASSERT\<close> (modelled from the spec: section 7 lists the internal error
  raised when an invariant is violated); \<open>Engine_Error\<close> is whatever the AEAD
  engine throws (a tag mismatch, an invalid nonce length), numbered by the engine.
  All of them derive from \<^verbatim>\<open>std::exception\<close>.
\<close>

datatype error =
    TLS_Exception Alert
  | Decoding_Error
  | Invalid_State
  | Internal_Error
  | Engine_Error nat

datatype Nonce_Format = CBC_MODE | AEAD_XOR_12 | AEAD_IMPLICIT_4

text \<open>
  \<^verbatim>\<open>AEAD_Mode\<close> is an abstract class whose implementations are not part of the
  sources at hand: it is a parameter here, an object made of its virtual functions
  and of its internal state \<open>engine\<close>. Each mutating call returns the state it
  leaves behind together with the exception it throws, if any. \<open>finish buf st\<close>
  processes in place the bytes \<open>buf\<close> of the output vector from the offset on and
  returns what stands there afterwards.
\<close>

record 'a AEAD_Mode =
  output_length :: "nat \<Rightarrow> nat"
  minimum_final_size :: nat
  set_associated_data_vec :: "u8 list \<Rightarrow> 'a \<Rightarrow> error option \<times> 'a"
  start :: "u8 list \<Rightarrow> 'a \<Rightarrow> error option \<times> 'a"
  finish :: "u8 list \<Rightarrow> 'a \<Rightarrow> error option \<times> u8 list \<times> 'a"
  engine :: 'a

record 'a Connection_Cipher_State =
  m_aead :: "'a AEAD_Mode"
  m_nonce :: "u8 list"
  m_nonce_format :: Nonce_Format
  m_nonce_bytes_from_handshake :: nat
  m_nonce_bytes_from_record :: nat

text \<open>
  \<^verbatim>\<open>RandomNumberGenerator\<close>: the bytes it will hand out, and how many it has handed
  out so far. \<^verbatim>\<open>rng.randomize(buf, n)\<close> returns the next \<open>n\<close> of them.
\<close>

record RandomNumberGenerator =
  rng_stream :: "nat \<Rightarrow> u8"
  rng_pos :: nat

definition randomize :: "nat \<Rightarrow> RandomNumberGenerator \<Rightarrow> u8 list \<times> RandomNumberGenerator" where
  "randomize n rng =
     (map (rng_stream rng) [rng_pos rng ..< rng_pos rng + n],
      rng\<lparr>rng_pos := rng_pos rng + n\<rparr>)"


record Record_Raw_Input =
  raw_data :: "u8 list"
  raw_consumed :: nat
  raw_is_datagram :: bool

record Record =
  rec_data :: "u8 list"
  rec_sequence :: u64
  rec_protocol_version :: Protocol_Version
  rec_type :: Record_Type

text \<open>
  \<^verbatim>\<open>Connection_Sequence_Numbers\<close> is an abstract class as well (its stream and
  datagram implementations live in \<^verbatim>\<open>tls_seq_numbers.h\<close>, not part of the sources
  at hand): the four members the readers call, and the object's state.
\<close>

record 'q Connection_Sequence_Numbers =
  next_read_sequence :: "'q \<Rightarrow> u64"
  current_read_epoch :: "'q \<Rightarrow> u16"
  already_seen :: "'q \<Rightarrow> u64 \<Rightarrow> bool"
  read_accept :: "u64 \<Rightarrow> 'q \<Rightarrow> 'q"
  seq_state :: 'q

section \<open>Cipher state: nonces and associated data\<close>

text \<open>
  \<^verbatim>\<open>Connection_Cipher_State::aead_nonce(uint64_t seq, RandomNumberGenerator& rng)\<close>,
  the write side. In \<open>CBC_MODE\<close> the handshake nonce is swapped out of the cipher
  state on its first use; afterwards the explicit IV is random. The
  \<^verbatim>\<open>throw Invalid_State\<close> after the switch is reached by no value of
  \<open>Nonce_Format\<close>.
\<close>

definition aead_nonce_write ::
  "u64 \<Rightarrow> RandomNumberGenerator \<Rightarrow> 'a Connection_Cipher_State
   \<Rightarrow> error + (u8 list \<times> 'a Connection_Cipher_State \<times> RandomNumberGenerator)" where
  "aead_nonce_write seq rng cs =
     (case m_nonce_format cs of
        CBC_MODE \<Rightarrow>
          if m_nonce cs \<noteq> [] then Inr (m_nonce cs, cs\<lparr>m_nonce := []\<rparr>, rng)
          else (let (nonce, rng') = randomize (m_nonce_bytes_from_record cs) rng
                in Inr (nonce, cs, rng'))
      | AEAD_XOR_12 \<Rightarrow>
          (let nonce = replicate 12 0;
               nonce = copy_at 4 (store_be seq) nonce;
               nonce = xor_buf nonce (m_nonce cs) (length (m_nonce cs))
           in Inr (nonce, cs, rng))
      | AEAD_IMPLICIT_4 \<Rightarrow>
          if length (m_nonce cs) \<noteq> 4 then Inl Internal_Error
          else (let nonce = replicate 12 0;
                    nonce = copy_at 0 (take 4 (m_nonce cs)) nonce;
                    nonce = copy_at (m_nonce_bytes_from_handshake cs) (store_be seq) nonce
                in Inr (nonce, cs, rng)))"

text \<open>
  \<^verbatim>\<open>Connection_Cipher_State::aead_nonce(const uint8_t record[], size_t record_len,
  uint64_t seq)\<close>, the read side. The pointer and its length are one list.
\<close>

definition aead_nonce_read ::
  "u8 list \<Rightarrow> u64 \<Rightarrow> 'a Connection_Cipher_State \<Rightarrow> error + u8 list" where
  "aead_nonce_read record_contents seq cs =
     (case m_nonce_format cs of
        CBC_MODE \<Rightarrow>
          if length record_contents < m_nonce_bytes_from_record cs then Inl Decoding_Error
          else Inr (take (m_nonce_bytes_from_record cs) record_contents)
      | AEAD_XOR_12 \<Rightarrow>
          (let nonce = replicate 12 0;
               nonce = copy_at 4 (store_be seq) nonce;
               nonce = xor_buf nonce (m_nonce cs) (length (m_nonce cs))
           in Inr nonce)
      | AEAD_IMPLICIT_4 \<Rightarrow>
          if length (m_nonce cs) \<noteq> 4 then Inl Internal_Error
          else if length record_contents < m_nonce_bytes_from_record cs then Inl Decoding_Error
          else (let nonce = replicate 12 0;
                    nonce = copy_at 0 (take 4 (m_nonce cs)) nonce;
                    nonce = copy_at (m_nonce_bytes_from_handshake cs)
                              (take (m_nonce_bytes_from_record cs) record_contents) nonce
                in Inr nonce))"

text \<open>\<^verbatim>\<open>Connection_Cipher_State::format_ad\<close>.\<close>

definition format_ad :: "u64 \<Rightarrow> u8 \<Rightarrow> Protocol_Version \<Rightarrow> u16 \<Rightarrow> u8 list" where
  "format_ad msg_sequence msg_type' version msg_length =
     (let ad = replicate 13 0;
          ad = copy_at 0 (store_be msg_sequence) ad;
          ad = ad[8 := msg_type'];
          ad = ad[9 := major_version version];
          ad = ad[10 := minor_version version];
          ad = ad[11 := get_byte_u16 0 msg_length];
          ad = ad[12 := get_byte_u16 1 msg_length]
      in ad)"

section \<open>The record writer\<close>



section \<open>The record reader\<close>

text \<open>
  \<^verbatim>\<open>fill_buffer_to\<close>: the return value, the read buffer and the input cursor
  (\<^verbatim>\<open>input\<close>, \<^verbatim>\<open>input_size\<close> and \<^verbatim>\<open>input_consumed\<close> are the three references into
  \<^verbatim>\<open>Record_Raw_Input\<close>).
\<close>

definition fill_buffer_to ::
  "u8 list \<Rightarrow> Record_Raw_Input \<Rightarrow> nat \<Rightarrow> nat \<times> u8 list \<times> Record_Raw_Input" where
  "fill_buffer_to readbuf raw_input desired =
     (if length readbuf \<ge> desired then (0, readbuf, raw_input)
      else (let taken = min (length (raw_data raw_input)) (desired - length readbuf);
                readbuf = readbuf @ take taken (raw_data raw_input);
                raw_input = raw_input\<lparr>raw_data := drop taken (raw_data raw_input),
                                       raw_consumed := raw_consumed raw_input + taken\<rparr>
            in (desired - length readbuf, readbuf, raw_input)))"

text \<open>
  \<^verbatim>\<open>decrypt_record\<close>. \<open>record_contents\<close> is the pointer together with \<open>record_len\<close>:
  the readers pass the body of a complete record. The result holds the exception, if
  one was thrown, and what the call left in the output vector and in the cipher state
  up to that point (the datagram reader catches the exception and goes on with both).

  \<^verbatim>\<open>msg_length = record_len - nonce_bytes_from_record\<close> is a \<^verbatim>\<open>size_t\<close> subtraction.
  In \<open>CBC_MODE\<close> and \<open>AEAD_IMPLICIT_4\<close> the nonce extraction has checked
  \<open>record_len \<ge> nonce_bytes_from_record\<close> before; for \<open>AEAD_XOR_12\<close> the
  constructor of the cipher state sets \<open>nonce_bytes_from_record = 0\<close>. The theorems
  below state this as a hypothesis wherever the subtraction matters.
\<close>

definition decrypt_record ::
  "u8 list \<Rightarrow> u8 list \<Rightarrow> u64 \<Rightarrow> Protocol_Version \<Rightarrow> Record_Type
   \<Rightarrow> 'a Connection_Cipher_State \<Rightarrow> error option \<times> u8 list \<times> 'a Connection_Cipher_State" where
  "decrypt_record output record_contents record_sequence record_version record_type cs =
     (let aead = m_aead cs
      in case aead_nonce_read record_contents record_sequence cs of
           Inl e \<Rightarrow> (Some e, output, cs)
         | Inr nonce \<Rightarrow>
            (let msg = drop (m_nonce_bytes_from_record cs) record_contents;
                 msg_length = length record_contents - m_nonce_bytes_from_record cs
             in if msg_length < minimum_final_size aead
                then (Some (TLS_Exception BAD_RECORD_MAC), output, cs)
                else
                 (let ptext_size = output_length aead msg_length;
                      (e1, st1) = set_associated_data_vec aead
                                    (format_ad record_sequence (record_type_byte record_type)
                                       record_version (of_nat ptext_size))
                                    (engine aead)
                  in case e1 of
                       Some e \<Rightarrow> (Some e, output, cs\<lparr>m_aead := aead\<lparr>engine := st1\<rparr>\<rparr>)
                     | None \<Rightarrow>
                        (let (e2, st2) = start aead nonce st1
                         in case e2 of
                              Some e \<Rightarrow> (Some e, output, cs\<lparr>m_aead := aead\<lparr>engine := st2\<rparr>\<rparr>)
                            | None \<Rightarrow>
                               (let (e3, buf, st3) = finish aead msg st2
                                in (e3, output @ buf,
                                    cs\<lparr>m_aead := aead\<lparr>engine := st3\<rparr>\<rparr>))))))"

text \<open>
  What a reader call leaves behind: its return value and every object it was given a
  reference to. \<^verbatim>\<open>get_cipherstate\<close> returns a shared pointer to the cipher state of an
  epoch (\<open>None\<close> is the null pointer); decryption changes the object behind it, so the
  lookup is returned updated.
\<close>

record ('a, 'q) reader_result =
  res_needed :: nat
  res_readbuf :: "u8 list"
  res_raw_input :: Record_Raw_Input
  res_rec :: Record
  res_sequence_numbers :: "'q Connection_Sequence_Numbers option"
  res_cipherstates :: "u16 \<Rightarrow> 'a Connection_Cipher_State option"

definition seq_read_accept ::
  "u64 \<Rightarrow> 'q Connection_Sequence_Numbers \<Rightarrow> 'q Connection_Sequence_Numbers" where
  "seq_read_accept s sn = sn\<lparr>seq_state := read_accept sn s (seq_state sn)\<rparr>"

text \<open>
  \<^verbatim>\<open>read_tls_record\<close>. A thrown exception ends the call with \<open>Inl\<close>; every
  \<^verbatim>\<open>return\<close> is an \<open>Inr\<close> holding the returned count of bytes still needed.
  The function is written in two parts. \<open>read_tls_record\<close> is its prologue, up to
  the assertion that the buffer holds the full record (lines 311 to 345);
  \<open>tls_dispatch\<close> is the rest (lines 347 to 389), entered with the buffer, the
  input cursor and the record as the prologue left them, and with \<open>record_size\<close>.
\<close>

definition tls_dispatch ::
  "u8 list \<Rightarrow> Record_Raw_Input \<Rightarrow> Record \<Rightarrow> nat \<Rightarrow> 'q Connection_Sequence_Numbers option
   \<Rightarrow> (u16 \<Rightarrow> 'a Connection_Cipher_State option) \<Rightarrow> error + ('a, 'q) reader_result" where
  "tls_dispatch readbuf raw_input rec record_size sequence_numbers get_cipherstate =
     (let rec = rec\<lparr>rec_type := Wire_Type (readbuf ! 0)\<rparr>;
          (seq, epoch) =
            (case sequence_numbers of
               Some sn \<Rightarrow> (next_read_sequence sn (seq_state sn),
                           current_read_epoch sn (seq_state sn))
             | None \<Rightarrow> (0, 0));
          rec = rec\<lparr>rec_sequence := seq\<rparr>;
          record_contents = drop TLS_HEADER_SIZE readbuf
      in if epoch = 0
         then Inr \<lparr>res_needed = 0, res_readbuf = [], res_raw_input = raw_input,
                   res_rec = rec\<lparr>rec_data := take record_size (drop TLS_HEADER_SIZE readbuf)\<rparr>,
                   res_sequence_numbers = sequence_numbers,
                   res_cipherstates = get_cipherstate\<rparr>
         else
          (case get_cipherstate epoch of
             None \<Rightarrow> Inl Internal_Error
           | Some cs \<Rightarrow>
              (let (e, out, cs) =
                     decrypt_record (rec_data rec) (take record_size record_contents)
                       (rec_sequence rec) (rec_protocol_version rec) (rec_type rec) cs
               in case e of
                    Some err \<Rightarrow> Inl err
                  | None \<Rightarrow>
                     Inr \<lparr>res_needed = 0, res_readbuf = [], res_raw_input = raw_input,
                          res_rec = rec\<lparr>rec_data := out\<rparr>,
                          res_sequence_numbers =
                            map_option (seq_read_accept (rec_sequence rec)) sequence_numbers,
                          res_cipherstates = get_cipherstate(epoch := Some cs)\<rparr>)))"

definition read_tls_record ::
  "u8 list \<Rightarrow> Record_Raw_Input \<Rightarrow> Record \<Rightarrow> 'q Connection_Sequence_Numbers option
   \<Rightarrow> (u16 \<Rightarrow> 'a Connection_Cipher_State option) \<Rightarrow> error + ('a, 'q) reader_result" where
  "read_tls_record readbuf raw_input rec sequence_numbers get_cipherstate =
     (let (needed, readbuf, raw_input) =
            (if length readbuf < TLS_HEADER_SIZE
             then fill_buffer_to readbuf raw_input TLS_HEADER_SIZE
             else (0, readbuf, raw_input))
      in if needed \<noteq> 0
         then Inr \<lparr>res_needed = needed, res_readbuf = readbuf, res_raw_input = raw_input,
                   res_rec = rec, res_sequence_numbers = sequence_numbers,
                   res_cipherstates = get_cipherstate\<rparr>
         else if length readbuf < TLS_HEADER_SIZE then Inl Internal_Error
         else
          (let rec = rec\<lparr>rec_protocol_version :=
                       \<lparr>major_version = readbuf ! 1, minor_version = readbuf ! 2\<rparr>\<rparr>
           in if is_datagram_protocol (rec_protocol_version rec)
              then Inl (TLS_Exception PROTOCOL_VERSION)
              else
               (let record_size =
                      unat (make_uint16 (readbuf ! (TLS_HEADER_SIZE - 2))
                                        (readbuf ! (TLS_HEADER_SIZE - 1)))
                in if record_size > MAX_CIPHERTEXT_SIZE
                   then Inl (TLS_Exception RECORD_OVERFLOW)
                   else if record_size = 0 then Inl (TLS_Exception DECODE_ERROR)
                   else
                    (let (needed, readbuf, raw_input) =
                           fill_buffer_to readbuf raw_input (TLS_HEADER_SIZE + record_size)
                     in if needed \<noteq> 0
                        then Inr \<lparr>res_needed = needed, res_readbuf = readbuf,
                                  res_raw_input = raw_input, res_rec = rec,
                                  res_sequence_numbers = sequence_numbers,
                                  res_cipherstates = get_cipherstate\<rparr>
                        else if TLS_HEADER_SIZE + record_size \<noteq> length readbuf
                        then Inl Internal_Error
                        else tls_dispatch readbuf raw_input rec record_size
                               sequence_numbers get_cipherstate))))"

text \<open>
  \<^verbatim>\<open>read_dtls_record\<close>, in the same two parts: the prologue (lines 398 to 438) and
  \<open>dtls_dispatch\<close> (lines 440 to 491). The \<^verbatim>\<open>try\<close> block holds the cipher state
  lookup, its assertion and \<^verbatim>\<open>decrypt_record\<close>; \<^verbatim>\<open>catch(std::exception&)\<close> turns
  whatever they throw into a dropped record, and goes on with what they left in the
  record's data and in the cipher state. The first early return (the header is
  incomplete) clears the buffer and leaves the record's type as it was.
\<close>

definition dtls_dispatch ::
  "u8 list \<Rightarrow> Record_Raw_Input \<Rightarrow> Record \<Rightarrow> nat \<Rightarrow> 'q Connection_Sequence_Numbers option
   \<Rightarrow> (u16 \<Rightarrow> 'a Connection_Cipher_State option) \<Rightarrow> error + ('a, 'q) reader_result" where
  "dtls_dispatch readbuf raw_input rec record_size sequence_numbers get_cipherstate =
     (let rec = rec\<lparr>rec_type := Wire_Type (readbuf ! 0)\<rparr>;
          rec = rec\<lparr>rec_sequence := load_be (drop 3 readbuf)\<rparr>;
          epoch = (ucast (drop_bit 48 (rec_sequence rec)) :: u16)
      in if (case sequence_numbers of
               Some sn \<Rightarrow> already_seen sn (seq_state sn) (rec_sequence rec)
             | None \<Rightarrow> False)
         then Inr \<lparr>res_needed = 0, res_readbuf = [], res_raw_input = raw_input,
                   res_rec = rec\<lparr>rec_type := NO_RECORD\<rparr>,
                   res_sequence_numbers = sequence_numbers,
                   res_cipherstates = get_cipherstate\<rparr>
         else
          (let record_contents = drop DTLS_HEADER_SIZE readbuf
           in if epoch = 0
              then Inr \<lparr>res_needed = 0, res_readbuf = [], res_raw_input = raw_input,
                        res_rec = rec\<lparr>rec_data :=
                                    take record_size (drop DTLS_HEADER_SIZE readbuf)\<rparr>,
                        res_sequence_numbers =
                          map_option (seq_read_accept (rec_sequence rec)) sequence_numbers,
                        res_cipherstates = get_cipherstate\<rparr>
              else
               (case get_cipherstate epoch of
                  None \<Rightarrow>
                    Inr \<lparr>res_needed = 0, res_readbuf = [], res_raw_input = raw_input,
                         res_rec = rec\<lparr>rec_type := NO_RECORD\<rparr>,
                         res_sequence_numbers = sequence_numbers,
                         res_cipherstates = get_cipherstate\<rparr>
                | Some cs \<Rightarrow>
                   (let (e, out, cs) =
                          decrypt_record (rec_data rec) (take record_size record_contents)
                            (rec_sequence rec) (rec_protocol_version rec) (rec_type rec) cs
                    in case e of
                         Some err \<Rightarrow>
                           Inr \<lparr>res_needed = 0, res_readbuf = [], res_raw_input = raw_input,
                                res_rec = rec\<lparr>rec_data := out, rec_type := NO_RECORD\<rparr>,
                                res_sequence_numbers = sequence_numbers,
                                res_cipherstates = get_cipherstate(epoch := Some cs)\<rparr>
                       | None \<Rightarrow>
                           Inr \<lparr>res_needed = 0, res_readbuf = [], res_raw_input = raw_input,
                                res_rec = rec\<lparr>rec_data := out\<rparr>,
                                res_sequence_numbers =
                                  map_option (seq_read_accept (rec_sequence rec))
                                    sequence_numbers,
                                res_cipherstates = get_cipherstate(epoch := Some cs)\<rparr>))))"

definition read_dtls_record ::
  "u8 list \<Rightarrow> Record_Raw_Input \<Rightarrow> Record \<Rightarrow> 'q Connection_Sequence_Numbers option
   \<Rightarrow> (u16 \<Rightarrow> 'a Connection_Cipher_State option) \<Rightarrow> error + ('a, 'q) reader_result" where
  "read_dtls_record readbuf raw_input rec sequence_numbers get_cipherstate =
     (let (needed, readbuf, raw_input) =
            (if length readbuf < DTLS_HEADER_SIZE
             then fill_buffer_to readbuf raw_input DTLS_HEADER_SIZE
             else (0, readbuf, raw_input))
      in if needed \<noteq> 0
         then Inr \<lparr>res_needed = 0, res_readbuf = [], res_raw_input = raw_input,
                   res_rec = rec, res_sequence_numbers = sequence_numbers,
                   res_cipherstates = get_cipherstate\<rparr>
         else if length readbuf < DTLS_HEADER_SIZE then Inl Internal_Error
         else
          (let rec = rec\<lparr>rec_protocol_version :=
                       \<lparr>major_version = readbuf ! 1, minor_version = readbuf ! 2\<rparr>\<rparr>
           in if \<not> is_datagram_protocol (rec_protocol_version rec)
              then Inr \<lparr>res_needed = 0, res_readbuf = [], res_raw_input = raw_input,
                        res_rec = rec\<lparr>rec_type := NO_RECORD\<rparr>,
                        res_sequence_numbers = sequence_numbers,
                        res_cipherstates = get_cipherstate\<rparr>
              else
               (let record_size =
                      unat (make_uint16 (readbuf ! (DTLS_HEADER_SIZE - 2))
                                        (readbuf ! (DTLS_HEADER_SIZE - 1)))
                in if record_size > MAX_CIPHERTEXT_SIZE
                   then Inr \<lparr>res_needed = 0, res_readbuf = [], res_raw_input = raw_input,
                             res_rec = rec\<lparr>rec_type := NO_RECORD\<rparr>,
                             res_sequence_numbers = sequence_numbers,
                             res_cipherstates = get_cipherstate\<rparr>
                   else
                    (let (needed, readbuf, raw_input) =
                           fill_buffer_to readbuf raw_input (DTLS_HEADER_SIZE + record_size)
                     in if needed \<noteq> 0
                        then Inr \<lparr>res_needed = 0, res_readbuf = [],
                                  res_raw_input = raw_input,
                                  res_rec = rec\<lparr>rec_type := NO_RECORD\<rparr>,
                                  res_sequence_numbers = sequence_numbers,
                                  res_cipherstates = get_cipherstate\<rparr>
                        else if DTLS_HEADER_SIZE + record_size \<noteq> length readbuf
                        then Inl Internal_Error
                        else dtls_dispatch readbuf raw_input rec record_size
                               sequence_numbers get_cipherstate))))"


text \<open>
  The input cursor after \<open>k\<close> more bytes have been taken from it (what
  \<^verbatim>\<open>fill_buffer_to\<close> does to \<^verbatim>\<open>input\<close>, \<^verbatim>\<open>input_size\<close> and \<^verbatim>\<open>input_consumed\<close>).
\<close>

definition advance :: "nat \<Rightarrow> Record_Raw_Input \<Rightarrow> Record_Raw_Input" where
  "advance k raw_input =
     raw_input\<lparr>raw_data := drop k (raw_data raw_input),
               raw_consumed := raw_consumed raw_input + k\<rparr>"

text \<open>
  What the constructor of \<^verbatim>\<open>Connection_Cipher_State\<close> establishes for the two AEAD
  nonce formats (modelled from the spec, section 4.2: \<open>AEAD_XOR_12\<close> takes 12 bytes
  from the handshake and none from the record, \<open>AEAD_IMPLICIT_4\<close> takes 4 and 8).
  Under it the nonce vector of 12 bytes is never written past its end and
  the subtraction of \<^verbatim>\<open>decrypt_record\<close> does not wrap around.
\<close>

definition cipher_state_ok :: "'a Connection_Cipher_State \<Rightarrow> bool" where
  "cipher_state_ok cs =
     (case m_nonce_format cs of
        CBC_MODE \<Rightarrow> True
      | AEAD_XOR_12 \<Rightarrow> length (m_nonce cs) = 12 \<and> m_nonce_bytes_from_record cs = 0
      | AEAD_IMPLICIT_4 \<Rightarrow>
          m_nonce_bytes_from_handshake cs = 4 \<and> m_nonce_bytes_from_record cs = 8)"

text \<open>
  The datagram in \<open>readbuf\<close> and the input is a complete record of a non-zero epoch
  that is not a replay, and the \<^verbatim>\<open>try\<close> block of \<^verbatim>\<open>read_dtls_record\<close> throws on it:
  the cipher state of the epoch is missing, or \<^verbatim>\<open>decrypt_record\<close> fails.
\<close>

definition dtls_try_block_throws ::
  "u8 list \<Rightarrow> Record_Raw_Input \<Rightarrow> Record \<Rightarrow> 'q Connection_Sequence_Numbers option
   \<Rightarrow> (u16 \<Rightarrow> 'a Connection_Cipher_State option) \<Rightarrow> bool" where
  "dtls_try_block_throws readbuf raw_input rec sequence_numbers get_cipherstate =
     (let w = readbuf @ raw_data raw_input;
          sz = unat (make_uint16 (w ! 11) (w ! 12));
          version = \<lparr>major_version = w ! 1, minor_version = w ! 2\<rparr>;
          s = load_be (drop 3 w);
          epoch = (ucast (drop_bit 48 s) :: u16)
      in DTLS_HEADER_SIZE + sz \<le> length w \<and> is_datagram_protocol version
         \<and> sz \<le> MAX_CIPHERTEXT_SIZE
         \<and> (case sequence_numbers of
               Some sn \<Rightarrow> \<not> already_seen sn (seq_state sn) s | None \<Rightarrow> True)
         \<and> epoch \<noteq> 0
         \<and> (case get_cipherstate epoch of
               None \<Rightarrow> True
             | Some cs \<Rightarrow>
                 fst (decrypt_record (rec_data rec) (take sz (drop DTLS_HEADER_SIZE w)) s
                        version (Wire_Type (w ! 0)) cs) \<noteq> None))"

section \<open>Sequence numbers for closed examples\<close>

text \<open>
  Modelled from the spec: the two implementations of \<^verbatim>\<open>Connection_Sequence_Numbers\<close>
  (\<^verbatim>\<open>tls_seq_numbers.h\<close> is not part of the sources at hand), as far as section 4.1
  describes them. The stream one holds the next read sequence number and the read
  epoch; \<^verbatim>\<open>read_accept\<close> advances the counter. The datagram one holds the read epoch
  and the sequence numbers it has accepted; \<^verbatim>\<open>read_accept\<close> marks one as seen, and
  \<^verbatim>\<open>next_read_sequence\<close> is never called by the datagram reader.
\<close>

definition stream_sequence_numbers ::
  "u64 \<times> u16 \<Rightarrow> (u64 \<times> u16) Connection_Sequence_Numbers" where
  "stream_sequence_numbers st =
     \<lparr>next_read_sequence = fst,
      current_read_epoch = snd,
      already_seen = (\<lambda>_ _. False),
      read_accept = (\<lambda>_ st. (fst st + 1, snd st)),
      seq_state = st\<rparr>"

definition datagram_sequence_numbers ::
  "u16 \<times> u64 list \<Rightarrow> (u16 \<times> u64 list) Connection_Sequence_Numbers" where
  "datagram_sequence_numbers st =
     \<lparr>next_read_sequence = (\<lambda>_. 0),
      current_read_epoch = fst,
      already_seen = (\<lambda>st s. s \<in> set (snd st)),
      read_accept = (\<lambda>s st. (fst st, s # snd st)),
      seq_state = st\<rparr>"



text \<open>
  Successive calls of \<^verbatim>\<open>read_tls_record\<close>, one for each piece of the input, on the
  reader's persistent buffer and on what the call before left of the record, the
  sequence numbers and the cipher states. Every call but the last has to return a
  positive count of bytes still needed; the result is what the last call returns, and
  \<open>None\<close> if an earlier call returned 0 or threw. \<open>forget_cursor\<close> hides the input
  cursor, which belongs to the piece and not to the record.
\<close>

fun deliver ::
  "u8 list list \<Rightarrow> u8 list \<Rightarrow> Record \<Rightarrow> 'q Connection_Sequence_Numbers option
   \<Rightarrow> (u16 \<Rightarrow> 'a Connection_Cipher_State option)
   \<Rightarrow> (error + ('a, 'q) reader_result) option" where
  "deliver [] readbuf rec sequence_numbers get_cipherstate = None"
| "deliver [piece] readbuf rec sequence_numbers get_cipherstate =
     Some (read_tls_record readbuf
             \<lparr>raw_data = piece, raw_consumed = 0, raw_is_datagram = False\<rparr>
             rec sequence_numbers get_cipherstate)"
| "deliver (piece # next_piece # pieces) readbuf rec sequence_numbers get_cipherstate =
     (case read_tls_record readbuf
             \<lparr>raw_data = piece, raw_consumed = 0, raw_is_datagram = False\<rparr>
             rec sequence_numbers get_cipherstate of
        Inl e \<Rightarrow> None
      | Inr r \<Rightarrow>
          if 0 < res_needed r
          then deliver (next_piece # pieces) (res_readbuf r) (res_rec r)
                 (res_sequence_numbers r) (res_cipherstates r)
          else None)"

definition forget_cursor ::
  "error + ('a, 'q) reader_result \<Rightarrow> error + ('a, 'q) reader_result" where
  "forget_cursor res =
     (case res of
        Inl e \<Rightarrow> Inl e
      | Inr r \<Rightarrow> Inr (r\<lparr>res_raw_input :=
                         \<lparr>raw_data = [], raw_consumed = 0, raw_is_datagram = False\<rparr>\<rparr>))"

section \<open>A small cipher suite for closed examples\<close>

text \<open>
  The theorems below hold for every AEAD engine. Their closed instances need one:
  \<open>toy_encryption\<close> masks each byte and appends a one-byte tag over the
  associated data, the nonce and the plaintext; \<open>toy_decryption\<close> checks the tag
  and removes the mask. The engine state remembers the associated data and the nonce
  it was last given.
\<close>

definition toy_tag :: "u8 list \<Rightarrow> u8 list \<Rightarrow> u8 list \<Rightarrow> u8" where
  "toy_tag ad nonce ptext = sum_list (ad @ nonce @ ptext)"


definition toy_decryption :: "(u8 list \<times> u8 list) AEAD_Mode" where
  "toy_decryption =
     \<lparr>output_length = (\<lambda>n. n - 1),
      minimum_final_size = 1,
      set_associated_data_vec = (\<lambda>ad st. (None, (ad, snd st))),
      start = (\<lambda>nonce st. (None, (fst st, nonce))),
      finish = (\<lambda>buf st.
         (let ptext = map (\<lambda>b. b XOR 0x5A) (butlast buf)
          in if buf \<noteq> [] \<and> last buf = toy_tag (fst st) (snd st) ptext
             then (None, ptext, st) else (Some (Engine_Error 0), buf, st))),
      engine = ([], [])\<rparr>"

definition toy_cs ::
  "(u8 list \<times> u8 list) AEAD_Mode \<Rightarrow> Nonce_Format
   \<Rightarrow> (u8 list \<times> u8 list) Connection_Cipher_State" where
  "toy_cs aead fmt =
     \<lparr>m_aead = aead,
      m_nonce = (if fmt = AEAD_XOR_12 then replicate 12 4
                 else if fmt = AEAD_IMPLICIT_4 then [9, 9, 9, 9] else []),
      m_nonce_format = fmt,
      m_nonce_bytes_from_handshake =
        (if fmt = AEAD_XOR_12 then 12 else if fmt = AEAD_IMPLICIT_4 then 4 else 0),
      m_nonce_bytes_from_record =
        (if fmt = AEAD_XOR_12 then 0 else if fmt = AEAD_IMPLICIT_4 then 8 else 2)\<rparr>"

definition toy_rng :: RandomNumberGenerator where
  "toy_rng = \<lparr>rng_stream = (\<lambda>i. of_nat i + 100), rng_pos = 0\<rparr>"

definition tls12 :: Protocol_Version where
  "tls12 = \<lparr>major_version = 3, minor_version = 3\<rparr>"

definition dtls12 :: Protocol_Version where
  "dtls12 = \<lparr>major_version = 254, minor_version = 253\<rparr>"

definition empty_rec :: Record where
  "empty_rec = \<lparr>rec_data = [], rec_sequence = 0,
                 rec_protocol_version = \<lparr>major_version = 0, minor_version = 0\<rparr>,
                 rec_type = NO_RECORD\<rparr>"

definition raw_input_of :: "bool \<Rightarrow> u8 list \<Rightarrow> Record_Raw_Input" where
  "raw_input_of dgram bs = \<lparr>raw_data = bs, raw_consumed = 0, raw_is_datagram = dgram\<rparr>"

definition toy_lookup ::
  "Nonce_Format \<Rightarrow> u16 \<Rightarrow> (u8 list \<times> u8 list) Connection_Cipher_State option" where
  "toy_lookup fmt epoch = (if epoch = 1 then Some (toy_cs toy_decryption fmt) else None)"

section \<open>The reference modular inverse of the fuzzer\<close>

text \<open>
  The second source file is the fuzzer of the modular inverse. \<^verbatim>\<open>Botan::BigInt\<close> is
  an integer of any size: \<open>int\<close>.
\<close>

text \<open>
  Modelled from the spec: \<^verbatim>\<open>low_zero_bits\<close> (declared in \<^verbatim>\<open>numthry.h\<close>, not part of
  the sources at hand). The reference is the binary extended Euclidean algorithm, whose
  steps strip the trailing zero bits: \<open>low_zero_bits n\<close> is their number, and 0 for
  a number that is not positive.
\<close>

function low_zero_bits :: "int \<Rightarrow> nat" where
  "low_zero_bits n = (if n \<le> 0 \<or> odd n then 0 else Suc (low_zero_bits (n div 2)))"
  by pat_completeness auto
termination
  by (relation "measure nat") auto

text \<open>
  \<^verbatim>\<open>x >>= k\<close> on a \<^verbatim>\<open>BigInt\<close>, which is a sign and a magnitude: the magnitude is
  shifted, and a result of zero is not negative.
\<close>

definition shift_right :: "int \<Rightarrow> nat \<Rightarrow> int" where
  "shift_right x k = sgn x * (\<bar>x\<bar> div 2 ^ k)"

text \<open>
  The two \<^verbatim>\<open>for\<close> loops of \<^verbatim>\<open>inverse_mod_ref\<close>, which run once for every stripped
  bit: \<^verbatim>\<open>if(B.is_odd()) { B -= mod; } B >>= 1;\<close>.
\<close>

fun halve_mod :: "nat \<Rightarrow> int \<Rightarrow> int \<Rightarrow> int" where
  "halve_mod 0 B md = B"
| "halve_mod (Suc i) B md =
     (let B = (if odd B then B - md else B);
          B = shift_right B 1
      in halve_mod i B md)"

text \<open>
  The \<^verbatim>\<open>while(u.is_nonzero())\<close> loop, returning \<open>v\<close> and \<open>D\<close> as they stand when it
  ends. On arguments that the fuzzer never passes (a negative modulus, say) the loop
  does not end; the result is then \<open>None\<close>.
\<close>

partial_function (option) inverse_mod_loop ::
  "int \<Rightarrow> int \<Rightarrow> int \<Rightarrow> int \<Rightarrow> int \<Rightarrow> (int \<times> int) option" where
  "inverse_mod_loop md u v B D =
     (if u \<noteq> 0
      then (let u_zero_bits = low_zero_bits u;
                u = shift_right u u_zero_bits;
                B = halve_mod u_zero_bits B md;
                v_zero_bits = low_zero_bits v;
                v = shift_right v v_zero_bits;
                D = halve_mod v_zero_bits D md
            in if u \<ge> v then inverse_mod_loop md (u - v) v (B - D) D
               else inverse_mod_loop md u (v - u) B (D - B))
      else Some (v, D))"

text \<open>
  \<^verbatim>\<open>while(D.is_negative()) D += mod;\<close> and \<^verbatim>\<open>while(D >= mod) D -= mod;\<close>.
\<close>

partial_function (option) add_while_negative :: "int \<Rightarrow> int \<Rightarrow> int option" where
  "add_while_negative D md = (if D < 0 then add_while_negative (D + md) md else Some D)"

partial_function (option) sub_while_not_less :: "int \<Rightarrow> int \<Rightarrow> int option" where
  "sub_while_not_less D md = (if D \<ge> md then sub_while_not_less (D - md) md else Some D)"

declare inverse_mod_loop.simps [code]
declare add_while_negative.simps [code]
declare sub_while_not_less.simps [code]

text \<open>\<^verbatim>\<open>inverse_mod_ref\<close>; \<open>None\<close> stands for a call that does not return.\<close>

definition inverse_mod_ref :: "int \<Rightarrow> int \<Rightarrow> int option" where
  "inverse_mod_ref n md =
     (if n = 0 then Some 0
      else (case inverse_mod_loop md md n 0 1 of
              None \<Rightarrow> None
            | Some (v, D) \<Rightarrow>
                if v \<noteq> 1 then Some 0
                else (case add_while_negative D md of
                        None \<Rightarrow> None
                      | Some D \<Rightarrow> sub_while_not_less D md)))"

text \<open>
  Modelled from the spec: \<^verbatim>\<open>Botan::ct_inverse_mod_odd_modulus\<close> (in the library's number
  theory module, not part of the sources at hand). What the fuzzer expects of it, in
  the words of the claim: the modular inverse of \<open>x\<close> modulo \<open>mod\<close> in \<open>[0, mod)\<close>,
  or 0 when \<open>gcd(x, mod) \<noteq> 1\<close> or \<open>x = 0\<close>.
\<close>

definition ct_inverse_mod_odd_modulus :: "int \<Rightarrow> int \<Rightarrow> int" where
  "ct_inverse_mod_odd_modulus x md =
     (if x = 0 \<or> gcd x md \<noteq> 1 then 0
      else (case find (\<lambda>y. x * y mod md = 1) [0..md - 1] of Some y \<Rightarrow> y | None \<Rightarrow> 0))"

section \<open>Byte order\<close>

lemma upt_0_8: "[0..<8] = [0, 1, 2, 3, 4, 5, 6, 7]"
  by code_simp

lemma store_be_length [simp]: "length (store_be x) = 8"
  by (simp add: store_be_def)

lemma store_be_bytes:
  "store_be x = [ucast (drop_bit 56 x), ucast (drop_bit 48 x), ucast (drop_bit 40 x),
     ucast (drop_bit 32 x), ucast (drop_bit 24 x), ucast (drop_bit 16 x),
     ucast (drop_bit 8 x), ucast x]"
  by (simp add: store_be_def upt_0_8 get_byte_u64_def)

lemma recombine_low_byte:
  "push_bit 8 (drop_bit 8 x) OR ucast (ucast x :: u8) = (x :: u64)"
  by (rule bit_word_eqI) (auto simp add: bit_simps)

lemma top_byte: "ucast (ucast (drop_bit 56 x) :: u8) = drop_bit 56 (x :: u64)"
  by (rule bit_word_eqI) (auto simp add: bit_simps dest: bit_imp_le_length)

lemma recombine_step:
  "push_bit 8 (drop_bit (k + 8) x) OR ucast (ucast (drop_bit k x) :: u8) = drop_bit k (x :: u64)"
  using recombine_low_byte [of "drop_bit k x"] by (simp add: add.commute)

lemma load_be_store_be: "load_be (store_be x) = x"
  using recombine_step [of 48 x] recombine_step [of 40 x] recombine_step [of 32 x]
    recombine_step [of 24 x] recombine_step [of 16 x] recombine_step [of 8 x]
    recombine_step [of 0 x]
  by (simp add: store_be_bytes load_be_def top_byte)

lemma format_ad_bytes:
  "format_ad s t v l =
     store_be s @ [t, major_version v, minor_version v, ucast (drop_bit 8 l), ucast l]"
  by (simp add: format_ad_def copy_at_def store_be_bytes get_byte_u16_def Let_def
      eval_nat_numeral)

lemma xor_12_nonce:
  assumes "length n = 12"
  shows "xor_buf (copy_at 4 (store_be s) (replicate 12 0)) n (length n)
         = map2 (XOR) n (replicate 4 0 @ store_be s)"
proof (rule nth_equalityI)
  show "length (xor_buf (copy_at 4 (store_be s) (replicate 12 0)) n (length n))
        = length (map2 (XOR) n (replicate 4 0 @ store_be s))"
    using assms by (simp add: xor_buf_def copy_at_def)
next
  fix i
  assume "i < length (xor_buf (copy_at 4 (store_be s) (replicate 12 0)) n (length n))"
  then have "i < 12"
    by (simp add: xor_buf_def copy_at_def)
  then show "xor_buf (copy_at 4 (store_be s) (replicate 12 0)) n (length n) ! i
             = map2 (XOR) n (replicate 4 0 @ store_be s) ! i"
    using assms by (simp add: xor_buf_def copy_at_def xor.commute)
qed

section \<open>Filling the read buffer\<close>

lemma advance_0 [simp]: "advance 0 raw = raw"
  by (simp add: advance_def)

lemma advance_advance [simp]: "advance k (advance j raw) = advance (j + k) raw"
  by (simp add: advance_def add.commute add.assoc)

lemma raw_data_advance [simp]: "raw_data (advance k raw) = drop k (raw_data raw)"
  by (simp add: advance_def)

lemma fill_buffer_to_enough:
  assumes "length readbuf \<le> n" and "n \<le> length readbuf + length (raw_data raw)"
  shows "fill_buffer_to readbuf raw n =
           (0, take n (readbuf @ raw_data raw), advance (n - length readbuf) raw)"
  using assms by (simp add: fill_buffer_to_def Let_def min_def advance_def)

lemma fill_buffer_to_enough_of:
  assumes "w = readbuf @ raw_data raw"
    and "length readbuf \<le> n" and "n \<le> length readbuf + length (raw_data raw)"
  shows "fill_buffer_to readbuf raw n = (0, take n w, advance (n - length readbuf) raw)"
  using assms by (simp add: fill_buffer_to_enough)

lemma fill_buffer_to_short:
  assumes "length readbuf + length (raw_data raw) < n"
  shows "fill_buffer_to readbuf raw n =
           (n - (length readbuf + length (raw_data raw)), readbuf @ raw_data raw,
            advance (length (raw_data raw)) raw)"
  using assms by (auto simp add: fill_buffer_to_def Let_def min_def advance_def)

lemma header_fill:
  assumes "H \<le> length readbuf + length (raw_data raw)"
  shows "(if length readbuf < H then fill_buffer_to readbuf raw H else (0, readbuf, raw))
         = (0, take (max H (length readbuf)) (readbuf @ raw_data raw),
            advance (max H (length readbuf) - length readbuf) raw)"
  using assms by (simp add: fill_buffer_to_enough max_def)

lemma two_fills:
  assumes w: "w = readbuf @ raw_data raw"
    and fits: "length readbuf \<le> H + sz"
    and enough: "H + sz \<le> length w"
    and rb1: "rb1 = take (max H (length readbuf)) w"
    and raw1: "raw1 = advance (max H (length readbuf) - length readbuf) raw"
  shows "(if length readbuf < H then fill_buffer_to readbuf raw H else (0, readbuf, raw))
           = (0, rb1, raw1)"
    and "H \<le> length rb1"
    and "\<And>i. i < H \<Longrightarrow> rb1 ! i = w ! i"
    and "fill_buffer_to rb1 raw1 (H + sz)
           = (0, take (H + sz) w, advance (H + sz - length readbuf) raw)"
proof -
  define m where "m = max H (length readbuf)"
  have m: "H \<le> m" "length readbuf \<le> m" "m \<le> H + sz" "m \<le> length w"
    using fits enough by (auto simp: m_def w)
  show "(if length readbuf < H then fill_buffer_to readbuf raw H else (0, readbuf, raw))
           = (0, rb1, raw1)"
    unfolding rb1 raw1 w
    by (rule header_fill) (use enough w in simp)
  have len1: "length rb1 = m"
    using m by (simp add: rb1 m_def)
  then show "H \<le> length rb1"
    using m by simp
  show "\<And>i. i < H \<Longrightarrow> rb1 ! i = w ! i"
    using m by (simp add: rb1 m_def)
  have app1: "w = rb1 @ raw_data raw1"
    using m by (simp add: rb1 raw1 w m_def)
  then have "length rb1 + length (raw_data raw1) = length w"
    by simp
  then have "fill_buffer_to rb1 raw1 (H + sz)
          = (0, take (H + sz) w, advance (H + sz - length rb1) raw1)"
    using fill_buffer_to_enough_of [OF app1, of "H + sz"] m len1 enough
    by simp
  moreover have "advance (H + sz - length rb1) raw1 = advance (H + sz - length readbuf) raw"
    using m by (simp add: raw1 len1 m_def)
  ultimately show "fill_buffer_to rb1 raw1 (H + sz)
           = (0, take (H + sz) w, advance (H + sz - length readbuf) raw)"
    by simp
qed

lemma read_tls_record_complete:
  assumes w: "w = readbuf @ raw_data raw"
    and sz: "sz = unat (make_uint16 (w ! 3) (w ! 4))"
    and fits: "length readbuf \<le> TLS_HEADER_SIZE + sz"
    and enough: "TLS_HEADER_SIZE + sz \<le> length w"
    and ver: "\<not> is_datagram_protocol \<lparr>major_version = w ! 1, minor_version = w ! 2\<rparr>"
    and pos: "0 < sz" and le: "sz \<le> MAX_CIPHERTEXT_SIZE"
  shows "read_tls_record readbuf raw rec sn gcs =
           tls_dispatch (take (TLS_HEADER_SIZE + sz) w)
             (advance (TLS_HEADER_SIZE + sz - length readbuf) raw)
             (rec\<lparr>rec_protocol_version := \<lparr>major_version = w ! 1, minor_version = w ! 2\<rparr>\<rparr>)
             sz sn gcs"
proof -
  define rb1 where "rb1 = take (max 5 (length readbuf)) w"
  define raw1 where "raw1 = advance (max 5 (length readbuf) - length readbuf) raw"
  note f = two_fills [OF w fits [unfolded TLS_HEADER_SIZE_def] enough [unfolded TLS_HEADER_SIZE_def]
      rb1_def raw1_def]
  have n: "rb1 ! Suc 0 = w ! Suc 0" "rb1 ! 2 = w ! 2" "rb1 ! 3 = w ! 3" "rb1 ! 4 = w ! 4"
    using f(3) [of 1] f(3) [of 2] f(3) [of 3] f(3) [of 4] by simp_all
  have lenw: "length (take (5 + sz) w) = 5 + sz"
    using enough by (simp add: TLS_HEADER_SIZE_def)
  have l5: "\<not> length rb1 < 5"
    using f(2) by simp
  show ?thesis
    unfolding read_tls_record_def TLS_HEADER_SIZE_def f(1)
    using ver pos le
    by (simp add: Let_def n l5 sz [symmetric] f(4) lenw del: length_take)
qed


lemma read_dtls_record_complete:
  assumes w: "w = readbuf @ raw_data raw"
    and sz: "sz = unat (make_uint16 (w ! 11) (w ! 12))"
    and fits: "length readbuf \<le> DTLS_HEADER_SIZE + sz"
    and enough: "DTLS_HEADER_SIZE + sz \<le> length w"
    and ver: "is_datagram_protocol \<lparr>major_version = w ! 1, minor_version = w ! 2\<rparr>"
    and le: "sz \<le> MAX_CIPHERTEXT_SIZE"
  shows "read_dtls_record readbuf raw rec sn gcs =
           dtls_dispatch (take (DTLS_HEADER_SIZE + sz) w)
             (advance (DTLS_HEADER_SIZE + sz - length readbuf) raw)
             (rec\<lparr>rec_protocol_version := \<lparr>major_version = w ! 1, minor_version = w ! 2\<rparr>\<rparr>)
             sz sn gcs"
proof -
  define rb1 where "rb1 = take (max 13 (length readbuf)) w"
  define raw1 where "raw1 = advance (max 13 (length readbuf) - length readbuf) raw"
  note f = two_fills [OF w fits [unfolded DTLS_HEADER_SIZE_def]
      enough [unfolded DTLS_HEADER_SIZE_def] rb1_def raw1_def]
  have n: "rb1 ! Suc 0 = w ! Suc 0" "rb1 ! 2 = w ! 2" "rb1 ! 11 = w ! 11" "rb1 ! 12 = w ! 12"
    using f(3) [of 1] f(3) [of 2] f(3) [of 11] f(3) [of 12] by simp_all
  have lenw: "length (take (13 + sz) w) = 13 + sz"
    using enough by (simp add: DTLS_HEADER_SIZE_def)
  have l13: "\<not> length rb1 < 13"
    using f(2) by simp
  show ?thesis
    unfolding read_dtls_record_def DTLS_HEADER_SIZE_def f(1)
    using ver le
    by (simp add: Let_def n l13 sz [symmetric] f(4) lenw del: length_take)
qed

lemma header_only:
  assumes w: "w = readbuf @ raw_data raw"
    and enough: "H \<le> length w"
    and rb1: "rb1 = take (max H (length readbuf)) w"
    and raw1: "raw1 = advance (max H (length readbuf) - length readbuf) raw"
  shows "(if length readbuf < H then fill_buffer_to readbuf raw H else (0, readbuf, raw))
           = (0, rb1, raw1)"
    and "H \<le> length rb1"
    and "\<And>i. i < H \<Longrightarrow> rb1 ! i = w ! i"
proof -
  show "(if length readbuf < H then fill_buffer_to readbuf raw H else (0, readbuf, raw))
           = (0, rb1, raw1)"
    unfolding rb1 raw1 w
    by (rule header_fill) (use enough w in simp)
  show "H \<le> length rb1"
    using enough by (simp add: rb1 w)
  show "\<And>i. i < H \<Longrightarrow> rb1 ! i = w ! i"
    by (simp add: rb1)
qed


section \<open>Properties of the cipher state\<close>

lemma toy_xor_12_nonce:
  "aead_nonce_read record_contents 1 (toy_cs aead AEAD_XOR_12)
     = Inr [4, 4, 4, 4, 4, 4, 4, 4, 4, 4, 4, 5]"
  using xor_12_nonce [of "replicate 12 4" 1]
  by (simp add: aead_nonce_read_def toy_cs_def store_be_bytes eval_nat_numeral)

text \<open>
  Claim C8. In the \<open>AEAD_XOR_12\<close> format, with an implicit nonce of 12 bytes, the
  write side and the read side both derive the nonce of 12 bytes that is the implicit
  nonce xored with four zero bytes followed by the big-endian sequence number; the
  write side leaves the cipher state and the random number generator as they were.
  The closed instance is scenario S6: implicit nonce \<open>04\<close> twelve times and
  sequence number 1 give \<open>04 04 04 04 04 04 04 04 04 04 04 05\<close>.
\<close>

theorem aead_xor_12_nonce:
  assumes "m_nonce_format cs = AEAD_XOR_12" and "length (m_nonce cs) = 12"
  shows "aead_nonce_write seq rng cs
           = Inr (map2 (XOR) (m_nonce cs) (replicate 4 0 @ store_be seq), cs, rng)
         \<and> aead_nonce_read record_contents seq cs
           = Inr (map2 (XOR) (m_nonce cs) (replicate 4 0 @ store_be seq))
         \<and> length (map2 (XOR) (m_nonce cs) (replicate 4 0 @ store_be seq)) = 12"
  using assms xor_12_nonce [of "m_nonce cs" seq]
  by (simp add: aead_nonce_write_def aead_nonce_read_def)

theorem aead_xor_12_nonce_witness:
  "m_nonce_format (toy_cs toy_decryption AEAD_XOR_12) = AEAD_XOR_12
   \<and> m_nonce (toy_cs toy_decryption AEAD_XOR_12) = [4, 4, 4, 4, 4, 4, 4, 4, 4, 4, 4, 4]
   \<and> aead_nonce_write 1 toy_rng (toy_cs toy_decryption AEAD_XOR_12)
       = Inr ([4, 4, 4, 4, 4, 4, 4, 4, 4, 4, 4, 5], toy_cs toy_decryption AEAD_XOR_12, toy_rng)
   \<and> aead_nonce_read [] 1 (toy_cs toy_decryption AEAD_XOR_12)
       = Inr [4, 4, 4, 4, 4, 4, 4, 4, 4, 4, 4, 5]"
  using aead_xor_12_nonce [of "toy_cs toy_decryption AEAD_XOR_12" 1 toy_rng "[]"]
  by (simp add: toy_cs_def store_be_bytes eval_nat_numeral)

text \<open>
  Claim C7. \<^verbatim>\<open>format_ad\<close> returns 13 bytes: the sequence number in 8 bytes, most
  significant first, the type, the major and the minor version, and the length in 2
  bytes, most significant first. When \<^verbatim>\<open>decrypt_record\<close> gets past the nonce and the
  length guard, what it does is decided by the engine's answers to exactly one
  associated-data block: the one whose length field is
  \<open>output_length\<close> of the message length (the plaintext length), truncated to 16
  bits; the engine is then started with the nonce and finishes the message bytes.
\<close>

theorem associated_data_format:
  assumes "aead_nonce_read record_contents seq cs = Inr nonce"
    and "m_nonce_bytes_from_record cs \<le> length record_contents"
    and "minimum_final_size (m_aead cs)
           \<le> length record_contents - m_nonce_bytes_from_record cs"
    and "plen = (of_nat (output_length (m_aead cs)
                   (length record_contents - m_nonce_bytes_from_record cs)) :: u16)"
  shows "(\<forall>s t v l. format_ad s t v l =
            [ucast (drop_bit 56 s), ucast (drop_bit 48 s), ucast (drop_bit 40 s),
             ucast (drop_bit 32 s), ucast (drop_bit 24 s), ucast (drop_bit 16 s),
             ucast (drop_bit 8 s), ucast s,
             t, major_version v, minor_version v, ucast (drop_bit 8 l), ucast l])
         \<and> decrypt_record output record_contents seq version type cs =
            (case set_associated_data_vec (m_aead cs)
                    (format_ad seq (record_type_byte type) version plen) (engine (m_aead cs)) of
               (Some e, st1) \<Rightarrow> (Some e, output, cs\<lparr>m_aead := (m_aead cs)\<lparr>engine := st1\<rparr>\<rparr>)
             | (None, st1) \<Rightarrow>
                 (case start (m_aead cs) nonce st1 of
                    (Some e, st2) \<Rightarrow> (Some e, output, cs\<lparr>m_aead := (m_aead cs)\<lparr>engine := st2\<rparr>\<rparr>)
                  | (None, st2) \<Rightarrow>
                      (case finish (m_aead cs)
                              (drop (m_nonce_bytes_from_record cs) record_contents) st2 of
                         (e3, buf, st3) \<Rightarrow>
                           (e3, output @ buf, cs\<lparr>m_aead := (m_aead cs)\<lparr>engine := st3\<rparr>\<rparr>))))"
  using assms
  by (simp add: format_ad_bytes store_be_bytes decrypt_record_def Let_def
      split: prod.splits option.splits)

theorem associated_data_format_witness:
  "aead_nonce_read [91, 88, 89, 94, 93] 1 (toy_cs toy_decryption AEAD_XOR_12)
     = Inr [4, 4, 4, 4, 4, 4, 4, 4, 4, 4, 4, 5]
   \<and> format_ad 1 23 tls12 4 = [0, 0, 0, 0, 0, 0, 0, 1, 23, 3, 3, 0, 4]
   \<and> decrypt_record [] [91, 88, 89, 94, 93] 1 tls12 (Wire_Type 23)
       (toy_cs toy_decryption AEAD_XOR_12)
     = (None, [1, 2, 3, 4],
        (toy_cs toy_decryption AEAD_XOR_12)
          \<lparr>m_aead := toy_decryption
             \<lparr>engine := ([0, 0, 0, 0, 0, 0, 0, 1, 23, 3, 3, 0, 4],
                          [4, 4, 4, 4, 4, 4, 4, 4, 4, 4, 4, 5])\<rparr>\<rparr>)"
proof -
  have n: "aead_nonce_read [91, 88, 89, 94, 93] 1 (toy_cs toy_decryption AEAD_XOR_12)
     = Inr [4, 4, 4, 4, 4, 4, 4, 4, 4, 4, 4, 5]"
    by (rule toy_xor_12_nonce)
  have ad: "format_ad 1 23 tls12 4 = [0, 0, 0, 0, 0, 0, 0, 1, 23, 3, 3, 0, 4]"
    by (simp add: format_ad_bytes store_be_bytes tls12_def)
  show ?thesis
    using n ad
      associated_data_format [OF n _ _ refl, of "[]" tls12 "Wire_Type 23"]
    by (simp add: toy_cs_def toy_decryption_def toy_tag_def)
qed

text \<open>
  Claim C6. When the nonce has been extracted and the record body without its explicit
  nonce bytes is shorter than the engine's minimum final size, \<^verbatim>\<open>decrypt_record\<close>
  throws the bad-record-MAC alert, and has touched neither the output vector nor the
  cipher state: no member of the engine has been called.
\<close>

theorem early_length_guard:
  assumes "aead_nonce_read record_contents seq cs = Inr nonce"
    and "m_nonce_bytes_from_record cs \<le> length record_contents"
    and "length record_contents - m_nonce_bytes_from_record cs < minimum_final_size (m_aead cs)"
  shows "decrypt_record output record_contents seq version type cs
         = (Some (TLS_Exception BAD_RECORD_MAC), output, cs)"
  using assms by (simp add: decrypt_record_def)

theorem early_length_guard_witness:
  "aead_nonce_read [0, 0, 0, 0, 0, 0, 0, 7] 7 (toy_cs toy_decryption AEAD_IMPLICIT_4)
     = Inr [9, 9, 9, 9, 0, 0, 0, 0, 0, 0, 0, 7]
   \<and> decrypt_record [] [0, 0, 0, 0, 0, 0, 0, 7] 7 tls12 (Wire_Type 23)
       (toy_cs toy_decryption AEAD_IMPLICIT_4)
     = (Some (TLS_Exception BAD_RECORD_MAC), [], toy_cs toy_decryption AEAD_IMPLICIT_4)"
proof -
  have n: "aead_nonce_read [0, 0, 0, 0, 0, 0, 0, 7] 7 (toy_cs toy_decryption AEAD_IMPLICIT_4)
     = Inr [9, 9, 9, 9, 0, 0, 0, 0, 0, 0, 0, 7]"
    by (simp add: aead_nonce_read_def toy_cs_def copy_at_def eval_nat_numeral)
  show ?thesis
    using early_length_guard [OF n, of "[]" tls12 "Wire_Type 23"] n
    by (simp add: toy_cs_def toy_decryption_def)
qed

section \<open>Properties of the readers\<close>

lemma load_be_take: "load_be (take 8 bs) = load_be bs"
  by (simp add: load_be_def)

lemma load_be_drop_take:
  assumes "11 \<le> n"
  shows "load_be (drop 3 (take n w)) = load_be (drop 3 w)"
proof -
  have "take 8 (drop 3 (take n w)) = take 8 (drop 3 w)"
    using assms by (simp add: drop_take take_take min_def)
  then show ?thesis
    by (simp add: load_be_def)
qed

lemma make_uint16_FFFF: "unat (make_uint16 0xFF 0xFF) = 65535"
  by (simp add: make_uint16_def)

lemma make_uint16_0: "unat (make_uint16 0 0) = 0"
  by (simp add: make_uint16_def)

text \<open>
  The size tests that the two prologues make. Once the header is in the buffer and the
  version is of the reader's kind: a length field above \<open>MAX_CIPHERTEXT_SIZE\<close> makes
  the stream reader throw the record-overflow alert and the datagram reader drop the
  datagram (type \<open>NO_RECORD\<close>, empty buffer, return value 0); a length field of
  zero makes the stream reader throw the decode-error alert.
\<close>

theorem record_size_validation:
  assumes w: "w = readbuf @ raw_data raw_input"
    and ver: "version = \<lparr>major_version = w ! 1, minor_version = w ! 2\<rparr>"
  shows "(TLS_HEADER_SIZE \<le> length w \<and> \<not> is_datagram_protocol version
            \<and> MAX_CIPHERTEXT_SIZE < unat (make_uint16 (w ! 3) (w ! 4))
          \<longrightarrow> read_tls_record readbuf raw_input rec sn gcs
                = Inl (TLS_Exception RECORD_OVERFLOW))
       \<and> (TLS_HEADER_SIZE \<le> length w \<and> \<not> is_datagram_protocol version
            \<and> unat (make_uint16 (w ! 3) (w ! 4)) = 0
          \<longrightarrow> read_tls_record readbuf raw_input rec sn gcs
                = Inl (TLS_Exception DECODE_ERROR))
       \<and> (DTLS_HEADER_SIZE \<le> length w \<and> is_datagram_protocol version
            \<and> MAX_CIPHERTEXT_SIZE < unat (make_uint16 (w ! 11) (w ! 12))
          \<longrightarrow> read_dtls_record readbuf raw_input rec sn gcs
                = Inr \<lparr>res_needed = 0, res_readbuf = [],
                       res_raw_input = advance (max DTLS_HEADER_SIZE (length readbuf)
                                                - length readbuf) raw_input,
                       res_rec = rec\<lparr>rec_protocol_version := version, rec_type := NO_RECORD\<rparr>,
                       res_sequence_numbers = sn, res_cipherstates = gcs\<rparr>)"
proof (intro conjI impI)
  assume a: "TLS_HEADER_SIZE \<le> length w \<and> \<not> is_datagram_protocol version
            \<and> MAX_CIPHERTEXT_SIZE < unat (make_uint16 (w ! 3) (w ! 4))"
  define rb1 where "rb1 = take (max 5 (length readbuf)) w"
  define raw1 where "raw1 = advance (max 5 (length readbuf) - length readbuf) raw_input"
  from a have e: "5 \<le> length w" by (simp add: TLS_HEADER_SIZE_def)
  note f = header_only [OF w e rb1_def raw1_def]
  have n: "rb1 ! Suc 0 = w ! Suc 0" "rb1 ! 2 = w ! 2" "rb1 ! 3 = w ! 3" "rb1 ! 4 = w ! 4"
    using f(3) [of 1] f(3) [of 2] f(3) [of 3] f(3) [of 4] by simp_all
  have l5: "\<not> length rb1 < 5"
    using f(2) by simp
  show "read_tls_record readbuf raw_input rec sn gcs = Inl (TLS_Exception RECORD_OVERFLOW)"
    unfolding read_tls_record_def TLS_HEADER_SIZE_def f(1)
    using a by (simp add: Let_def n l5 ver)
next
  assume a: "TLS_HEADER_SIZE \<le> length w \<and> \<not> is_datagram_protocol version
            \<and> unat (make_uint16 (w ! 3) (w ! 4)) = 0"
  define rb1 where "rb1 = take (max 5 (length readbuf)) w"
  define raw1 where "raw1 = advance (max 5 (length readbuf) - length readbuf) raw_input"
  from a have e: "5 \<le> length w" by (simp add: TLS_HEADER_SIZE_def)
  note f = header_only [OF w e rb1_def raw1_def]
  have n: "rb1 ! Suc 0 = w ! Suc 0" "rb1 ! 2 = w ! 2" "rb1 ! 3 = w ! 3" "rb1 ! 4 = w ! 4"
    using f(3) [of 1] f(3) [of 2] f(3) [of 3] f(3) [of 4] by simp_all
  have l5: "\<not> length rb1 < 5"
    using f(2) by simp
  show "read_tls_record readbuf raw_input rec sn gcs = Inl (TLS_Exception DECODE_ERROR)"
    unfolding read_tls_record_def TLS_HEADER_SIZE_def f(1)
    using a by (simp add: Let_def n l5 ver)
next
  assume a: "DTLS_HEADER_SIZE \<le> length w \<and> is_datagram_protocol version
            \<and> MAX_CIPHERTEXT_SIZE < unat (make_uint16 (w ! 11) (w ! 12))"
  define rb1 where "rb1 = take (max 13 (length readbuf)) w"
  define raw1 where "raw1 = advance (max 13 (length readbuf) - length readbuf) raw_input"
  from a have e: "13 \<le> length w" by (simp add: DTLS_HEADER_SIZE_def)
  note f = header_only [OF w e rb1_def raw1_def]
  have n: "rb1 ! Suc 0 = w ! Suc 0" "rb1 ! 2 = w ! 2" "rb1 ! 11 = w ! 11" "rb1 ! 12 = w ! 12"
    using f(3) [of 1] f(3) [of 2] f(3) [of 11] f(3) [of 12] by simp_all
  have l13: "\<not> length rb1 < 13"
    using f(2) by simp
  show "read_dtls_record readbuf raw_input rec sn gcs
                = Inr \<lparr>res_needed = 0, res_readbuf = [],
                       res_raw_input = advance (max DTLS_HEADER_SIZE (length readbuf)
                                                - length readbuf) raw_input,
                       res_rec = rec\<lparr>rec_protocol_version := version, rec_type := NO_RECORD\<rparr>,
                       res_sequence_numbers = sn, res_cipherstates = gcs\<rparr>"
    unfolding read_dtls_record_def DTLS_HEADER_SIZE_def f(1)
    using a by (simp add: Let_def n l13 ver raw1_def)
qed

theorem record_size_validation_witness:
  "read_tls_record [] (raw_input_of False [0x17, 3, 3, 0xFF, 0xFF]) empty_rec
     (None :: (u64 \<times> u16) Connection_Sequence_Numbers option)
     (Map.empty :: u16 \<Rightarrow> (u8 list \<times> u8 list) Connection_Cipher_State option)
     = Inl (TLS_Exception RECORD_OVERFLOW)
   \<and> read_tls_record [] (raw_input_of False [0x17, 3, 3, 0, 0]) empty_rec
     (None :: (u64 \<times> u16) Connection_Sequence_Numbers option)
     (Map.empty :: u16 \<Rightarrow> (u8 list \<times> u8 list) Connection_Cipher_State option)
     = Inl (TLS_Exception DECODE_ERROR)
   \<and> read_dtls_record [] (raw_input_of True [0x17, 254, 253, 0, 0, 0, 0, 0, 0, 0, 1, 0xFF, 0xFF])
     empty_rec (None :: (u64 \<times> u16) Connection_Sequence_Numbers option)
     (Map.empty :: u16 \<Rightarrow> (u8 list \<times> u8 list) Connection_Cipher_State option)
     = Inr \<lparr>res_needed = 0, res_readbuf = [],
            res_raw_input = \<lparr>raw_data = [], raw_consumed = 13, raw_is_datagram = True\<rparr>,
            res_rec = \<lparr>rec_data = [], rec_sequence = 0, rec_protocol_version = dtls12,
                       rec_type = NO_RECORD\<rparr>,
            res_sequence_numbers = None, res_cipherstates = Map.empty\<rparr>"
  using record_size_validation [OF refl refl,
      of "[]" "raw_input_of False [0x17, 3, 3, 0xFF, 0xFF]" empty_rec
         "None :: (u64 \<times> u16) Connection_Sequence_Numbers option"
         "Map.empty :: u16 \<Rightarrow> (u8 list \<times> u8 list) Connection_Cipher_State option"]
    record_size_validation [OF refl refl,
      of "[]" "raw_input_of False [0x17, 3, 3, 0, 0]" empty_rec
         "None :: (u64 \<times> u16) Connection_Sequence_Numbers option"
         "Map.empty :: u16 \<Rightarrow> (u8 list \<times> u8 list) Connection_Cipher_State option"]
    record_size_validation [OF refl refl,
      of "[]" "raw_input_of True [0x17, 254, 253, 0, 0, 0, 0, 0, 0, 0, 1, 0xFF, 0xFF]" empty_rec
         "None :: (u64 \<times> u16) Connection_Sequence_Numbers option"
         "Map.empty :: u16 \<Rightarrow> (u8 list \<times> u8 list) Connection_Cipher_State option"]
  by (simp add: raw_input_of_def empty_rec_def dtls12_def TLS_HEADER_SIZE_def
      DTLS_HEADER_SIZE_def MAX_CIPHERTEXT_SIZE_def is_datagram_protocol_def
      make_uint16_FFFF make_uint16_0 advance_def)

text \<open>
  Claim C4 asks the datagram reader to drop a record whose length field is zero, as
  the stream reader rejects it (``a completely empty record'') and as the datagram
  reader drops on every other test of its prologue. \<^verbatim>\<open>read_dtls_record\<close> has no such
  test. On the datagram \<open>16 FE FD 00 00 00 00 00 00 00 01 00 00\<close> (handshake,
  DTLS 1.2, epoch 0, sequence number 1, length 0) it returns 0 with the record's type
  set to byte 0 and empty data: the empty record is handed on, not dropped.
\<close>

theorem dtls_zero_length_record_not_dropped:
  "read_dtls_record [] (raw_input_of True [0x16, 254, 253, 0, 0, 0, 0, 0, 0, 0, 1, 0, 0])
     empty_rec (None :: (u64 \<times> u16) Connection_Sequence_Numbers option)
     (Map.empty :: u16 \<Rightarrow> (u8 list \<times> u8 list) Connection_Cipher_State option)
   = Inr \<lparr>res_needed = 0, res_readbuf = [],
          res_raw_input = \<lparr>raw_data = [], raw_consumed = 13, raw_is_datagram = True\<rparr>,
          res_rec = \<lparr>rec_data = [], rec_sequence = 1, rec_protocol_version = dtls12,
                     rec_type = Wire_Type 0x16\<rparr>,
          res_sequence_numbers = None, res_cipherstates = Map.empty\<rparr>
   \<and> unat (make_uint16 0 0) = 0
   \<and> Wire_Type 0x16 \<noteq> NO_RECORD"
proof -
  have w: "[0x16, 254, 253, 0, 0, 0, 0, 0, 0, 0, 1, 0, 0]
           = [] @ raw_data (raw_input_of True [0x16, 254, 253, 0, 0, 0, 0, 0, 0, 0, 1, 0, 0 :: u8])"
    by (simp add: raw_input_of_def)
  have "read_dtls_record [] (raw_input_of True [0x16, 254, 253, 0, 0, 0, 0, 0, 0, 0, 1, 0, 0])
     empty_rec (None :: (u64 \<times> u16) Connection_Sequence_Numbers option)
     (Map.empty :: u16 \<Rightarrow> (u8 list \<times> u8 list) Connection_Cipher_State option)
     = dtls_dispatch [0x16, 254, 253, 0, 0, 0, 0, 0, 0, 0, 1, 0, 0]
         \<lparr>raw_data = [], raw_consumed = 13, raw_is_datagram = True\<rparr>
         (empty_rec\<lparr>rec_protocol_version := dtls12\<rparr>) 0 None Map.empty"
    using read_dtls_record_complete [OF w, of 0 empty_rec
        "None :: (u64 \<times> u16) Connection_Sequence_Numbers option"
        "Map.empty :: u16 \<Rightarrow> (u8 list \<times> u8 list) Connection_Cipher_State option"]
    by (simp add: make_uint16_0 DTLS_HEADER_SIZE_def is_datagram_protocol_def
        MAX_CIPHERTEXT_SIZE_def advance_def raw_input_of_def dtls12_def)
  moreover have "load_be [0, 0, 0, 0, 0, 0, 0, 1, 0, 0] = 1"
    by (simp add: load_be_def)
  ultimately show ?thesis
    by (simp add: dtls_dispatch_def empty_rec_def dtls12_def make_uint16_0 DTLS_HEADER_SIZE_def)
qed

text \<open>
  Claim C5. A complete datagram record that carries a sequence number which the
  sequence number object reports as already seen is dropped: the datagram reader
  returns 0 with type \<open>NO_RECORD\<close> and an empty buffer, and the sequence number
  object and the cipher states are as before (\<^verbatim>\<open>read_accept\<close> is not called). The
  closed instance is scenario S5, the sequence number of epoch 1 and counter 5.
\<close>

theorem dtls_replay_rejection:
  assumes w: "w = readbuf @ raw_data raw_input"
    and sz: "sz = unat (make_uint16 (w ! 11) (w ! 12))"
    and fits: "length readbuf \<le> DTLS_HEADER_SIZE + sz"
    and enough: "DTLS_HEADER_SIZE + sz \<le> length w"
    and ver: "is_datagram_protocol \<lparr>major_version = w ! 1, minor_version = w ! 2\<rparr>"
    and le: "sz \<le> MAX_CIPHERTEXT_SIZE"
    and carries: "take 8 (drop 3 w) = store_be s"
    and seen: "already_seen sn (seq_state sn) s"
  shows "read_dtls_record readbuf raw_input rec (Some sn) get_cipherstate =
           Inr \<lparr>res_needed = 0, res_readbuf = [],
                res_raw_input = advance (DTLS_HEADER_SIZE + sz - length readbuf) raw_input,
                res_rec = rec\<lparr>rec_sequence := s,
                              rec_protocol_version :=
                                \<lparr>major_version = w ! 1, minor_version = w ! 2\<rparr>,
                              rec_type := NO_RECORD\<rparr>,
                res_sequence_numbers = Some sn,
                res_cipherstates = get_cipherstate\<rparr>"
proof -
  have "load_be (drop 3 (take (DTLS_HEADER_SIZE + sz) w)) = load_be (take 8 (drop 3 w))"
    by (simp add: load_be_drop_take load_be_take DTLS_HEADER_SIZE_def)
  then have s: "load_be (drop 3 (take (DTLS_HEADER_SIZE + sz) w)) = s"
    by (simp add: carries load_be_store_be)
  show ?thesis
    unfolding read_dtls_record_complete [OF w sz fits enough ver le]
    using seen by (simp add: dtls_dispatch_def s Let_def)
qed

theorem dtls_replay_rejection_witness:
  "already_seen (datagram_sequence_numbers (1, [0x0001000000000005]))
     (seq_state (datagram_sequence_numbers (1, [0x0001000000000005]))) 0x0001000000000005
   \<and> read_dtls_record []
       (raw_input_of True [23, 254, 253, 0, 1, 0, 0, 0, 0, 0, 5, 0, 13,
                           0, 1, 0, 0, 0, 0, 0, 5, 91, 88, 89, 94, 80])
       empty_rec (Some (datagram_sequence_numbers (1, [0x0001000000000005])))
       (toy_lookup AEAD_IMPLICIT_4)
     = Inr \<lparr>res_needed = 0, res_readbuf = [],
            res_raw_input = \<lparr>raw_data = [], raw_consumed = 26, raw_is_datagram = True\<rparr>,
            res_rec = \<lparr>rec_data = [], rec_sequence = 0x0001000000000005,
                       rec_protocol_version = dtls12, rec_type = NO_RECORD\<rparr>,
            res_sequence_numbers = Some (datagram_sequence_numbers (1, [0x0001000000000005])),
            res_cipherstates = toy_lookup AEAD_IMPLICIT_4\<rparr>"
proof -
  have seen: "already_seen (datagram_sequence_numbers (1, [0x0001000000000005]))
     (seq_state (datagram_sequence_numbers (1, [0x0001000000000005]))) 0x0001000000000005"
    by (simp add: datagram_sequence_numbers_def)
  have sb: "store_be 0x0001000000000005 = [0, 1, 0, 0, 0, 0, 0, 5]"
    by (simp add: store_be_bytes)
  have sz: "unat (make_uint16 0 13) = 13"
    by (simp add: make_uint16_def)
  show ?thesis
    using seen
      dtls_replay_rejection [OF refl refl _ _ _ _ _ seen,
        of "[]" "raw_input_of True [23, 254, 253, 0, 1, 0, 0, 0, 0, 0, 5, 0, 13,
                           0, 1, 0, 0, 0, 0, 0, 5, 91, 88, 89, 94, 80]"
           empty_rec "toy_lookup AEAD_IMPLICIT_4"]
    by (simp add: raw_input_of_def sb sz DTLS_HEADER_SIZE_def MAX_CIPHERTEXT_SIZE_def
        is_datagram_protocol_def advance_def empty_rec_def dtls12_def)
qed

lemma load_be_dtls_header:
  assumes "take 8 (drop 3 w) = store_be s"
  shows "load_be (drop 3 (take (DTLS_HEADER_SIZE + sz) w)) = s"
proof -
  have "load_be (drop 3 (take (DTLS_HEADER_SIZE + sz) w)) = load_be (take 8 (drop 3 w))"
    by (simp add: load_be_drop_take load_be_take DTLS_HEADER_SIZE_def)
  then show ?thesis
    by (simp add: assms load_be_store_be)
qed

lemma make_uint16_small: "unat (make_uint16 0 4) = 4" "unat (make_uint16 0 2) = 2"
  by (simp_all add: make_uint16_def)

text \<open>
  Claim C3, as the code has it. A complete record of epoch 0 is returned as it stands:
  the data are the bytes \<open>H ..< H + record_size\<close> of the buffer, the type is byte 0,
  the buffer is cleared and the return value is 0. The datagram reader (where the
  record is not a replay) then calls \<^verbatim>\<open>read_accept\<close> on the sequence number object if
  there is one; the stream reader leaves the sequence number object as it was.
\<close>

theorem epoch_0_dispatch:
  assumes w: "w = readbuf @ raw_data raw_input"
    and version: "version = \<lparr>major_version = w ! 1, minor_version = w ! 2\<rparr>"
  shows "(sz = unat (make_uint16 (w ! 3) (w ! 4))
          \<and> length readbuf \<le> TLS_HEADER_SIZE + sz \<and> TLS_HEADER_SIZE + sz \<le> length w
          \<and> \<not> is_datagram_protocol version \<and> 0 < sz \<and> sz \<le> MAX_CIPHERTEXT_SIZE
          \<and> (case sn of Some q \<Rightarrow> current_read_epoch q (seq_state q) | None \<Rightarrow> 0) = 0
          \<longrightarrow> read_tls_record readbuf raw_input rec sn gcs =
                Inr \<lparr>res_needed = 0, res_readbuf = [],
                     res_raw_input = advance (TLS_HEADER_SIZE + sz - length readbuf) raw_input,
                     res_rec = \<lparr>rec_data = take sz (drop TLS_HEADER_SIZE w),
                                rec_sequence = (case sn of
                                    Some q \<Rightarrow> next_read_sequence q (seq_state q) | None \<Rightarrow> 0),
                                rec_protocol_version = version,
                                rec_type = Wire_Type (w ! 0)\<rparr>,
                     res_sequence_numbers = sn, res_cipherstates = gcs\<rparr>)
       \<and> (sz = unat (make_uint16 (w ! 11) (w ! 12))
          \<and> length readbuf \<le> DTLS_HEADER_SIZE + sz \<and> DTLS_HEADER_SIZE + sz \<le> length w
          \<and> is_datagram_protocol version \<and> sz \<le> MAX_CIPHERTEXT_SIZE
          \<and> take 8 (drop 3 w) = store_be s \<and> (ucast (drop_bit 48 s) :: u16) = 0
          \<and> (case sn of Some q \<Rightarrow> \<not> already_seen q (seq_state q) s | None \<Rightarrow> True)
          \<longrightarrow> read_dtls_record readbuf raw_input rec sn gcs =
                Inr \<lparr>res_needed = 0, res_readbuf = [],
                     res_raw_input = advance (DTLS_HEADER_SIZE + sz - length readbuf) raw_input,
                     res_rec = \<lparr>rec_data = take sz (drop DTLS_HEADER_SIZE w),
                                rec_sequence = s,
                                rec_protocol_version = version,
                                rec_type = Wire_Type (w ! 0)\<rparr>,
                     res_sequence_numbers = map_option (seq_read_accept s) sn,
                     res_cipherstates = gcs\<rparr>)"
proof (intro conjI impI)
  assume a: "sz = unat (make_uint16 (w ! 3) (w ! 4))
          \<and> length readbuf \<le> TLS_HEADER_SIZE + sz \<and> TLS_HEADER_SIZE + sz \<le> length w
          \<and> \<not> is_datagram_protocol version \<and> 0 < sz \<and> sz \<le> MAX_CIPHERTEXT_SIZE
          \<and> (case sn of Some q \<Rightarrow> current_read_epoch q (seq_state q) | None \<Rightarrow> 0) = 0"
  then have c: "read_tls_record readbuf raw_input rec sn gcs =
           tls_dispatch (take (TLS_HEADER_SIZE + sz) w)
             (advance (TLS_HEADER_SIZE + sz - length readbuf) raw_input)
             (rec\<lparr>rec_protocol_version := version\<rparr>) sz sn gcs"
    using read_tls_record_complete [OF w, of sz rec sn gcs] by (simp add: version)
  have d: "drop TLS_HEADER_SIZE (take (TLS_HEADER_SIZE + sz) w) = take sz (drop TLS_HEADER_SIZE w)"
    by (simp add: drop_take)
  have h: "take (TLS_HEADER_SIZE + sz) w ! 0 = w ! 0"
    by (simp add: TLS_HEADER_SIZE_def)
  show "read_tls_record readbuf raw_input rec sn gcs =
                Inr \<lparr>res_needed = 0, res_readbuf = [],
                     res_raw_input = advance (TLS_HEADER_SIZE + sz - length readbuf) raw_input,
                     res_rec = \<lparr>rec_data = take sz (drop TLS_HEADER_SIZE w),
                                rec_sequence = (case sn of
                                    Some q \<Rightarrow> next_read_sequence q (seq_state q) | None \<Rightarrow> 0),
                                rec_protocol_version = version,
                                rec_type = Wire_Type (w ! 0)\<rparr>,
                     res_sequence_numbers = sn, res_cipherstates = gcs\<rparr>"
    unfolding c tls_dispatch_def d h
    using a by (cases sn) (simp_all add: Let_def)
next
  assume a: "sz = unat (make_uint16 (w ! 11) (w ! 12))
          \<and> length readbuf \<le> DTLS_HEADER_SIZE + sz \<and> DTLS_HEADER_SIZE + sz \<le> length w
          \<and> is_datagram_protocol version \<and> sz \<le> MAX_CIPHERTEXT_SIZE
          \<and> take 8 (drop 3 w) = store_be s \<and> (ucast (drop_bit 48 s) :: u16) = 0
          \<and> (case sn of Some q \<Rightarrow> \<not> already_seen q (seq_state q) s | None \<Rightarrow> True)"
  then have c: "read_dtls_record readbuf raw_input rec sn gcs =
           dtls_dispatch (take (DTLS_HEADER_SIZE + sz) w)
             (advance (DTLS_HEADER_SIZE + sz - length readbuf) raw_input)
             (rec\<lparr>rec_protocol_version := version\<rparr>) sz sn gcs"
    using read_dtls_record_complete [OF w, of sz rec sn gcs] by (simp add: version)
  have d: "drop DTLS_HEADER_SIZE (take (DTLS_HEADER_SIZE + sz) w)
           = take sz (drop DTLS_HEADER_SIZE w)"
    by (simp add: drop_take)
  have h: "take (DTLS_HEADER_SIZE + sz) w ! 0 = w ! 0"
    by (simp add: DTLS_HEADER_SIZE_def)
  have s: "load_be (drop 3 (take (DTLS_HEADER_SIZE + sz) w)) = s"
    using a by (simp add: load_be_dtls_header)
  show "read_dtls_record readbuf raw_input rec sn gcs =
                Inr \<lparr>res_needed = 0, res_readbuf = [],
                     res_raw_input = advance (DTLS_HEADER_SIZE + sz - length readbuf) raw_input,
                     res_rec = \<lparr>rec_data = take sz (drop DTLS_HEADER_SIZE w),
                                rec_sequence = s,
                                rec_protocol_version = version,
                                rec_type = Wire_Type (w ! 0)\<rparr>,
                     res_sequence_numbers = map_option (seq_read_accept s) sn,
                     res_cipherstates = gcs\<rparr>"
    unfolding c dtls_dispatch_def d h s
    using a by (cases sn) (simp_all add: Let_def)
qed

theorem epoch_0_dispatch_witness:
  "read_tls_record [] (raw_input_of False [0x16, 3, 3, 0, 4, 1, 2, 3, 4]) empty_rec
     (Some (stream_sequence_numbers (0, 0)))
     (Map.empty :: u16 \<Rightarrow> (u8 list \<times> u8 list) Connection_Cipher_State option)
   = Inr \<lparr>res_needed = 0, res_readbuf = [],
          res_raw_input = \<lparr>raw_data = [], raw_consumed = 9, raw_is_datagram = False\<rparr>,
          res_rec = \<lparr>rec_data = [1, 2, 3, 4], rec_sequence = 0, rec_protocol_version = tls12,
                     rec_type = Wire_Type 0x16\<rparr>,
          res_sequence_numbers = Some (stream_sequence_numbers (0, 0)),
          res_cipherstates = Map.empty\<rparr>
   \<and> read_dtls_record []
       (raw_input_of True [0x16, 254, 253, 0, 0, 0, 0, 0, 0, 0, 7, 0, 2, 0xAA, 0xBB]) empty_rec
       (Some (datagram_sequence_numbers (0, [])))
       (Map.empty :: u16 \<Rightarrow> (u8 list \<times> u8 list) Connection_Cipher_State option)
   = Inr \<lparr>res_needed = 0, res_readbuf = [],
          res_raw_input = \<lparr>raw_data = [], raw_consumed = 15, raw_is_datagram = True\<rparr>,
          res_rec = \<lparr>rec_data = [0xAA, 0xBB], rec_sequence = 7, rec_protocol_version = dtls12,
                     rec_type = Wire_Type 0x16\<rparr>,
          res_sequence_numbers = Some (datagram_sequence_numbers (0, [7])),
          res_cipherstates = Map.empty\<rparr>"
proof -
  have sb: "store_be 7 = [0, 0, 0, 0, 0, 0, 0, 7]"
    by (simp add: store_be_bytes)
  have acc: "seq_read_accept 7 (datagram_sequence_numbers (0, []))
             = datagram_sequence_numbers (0, [7])"
    by (simp add: seq_read_accept_def datagram_sequence_numbers_def)
  have st: "current_read_epoch (stream_sequence_numbers (0, 0))
               (seq_state (stream_sequence_numbers (0, 0))) = 0"
    "next_read_sequence (stream_sequence_numbers (0, 0))
               (seq_state (stream_sequence_numbers (0, 0))) = 0"
    by (simp_all add: stream_sequence_numbers_def)
  have dg: "\<not> already_seen (datagram_sequence_numbers (0, []))
               (seq_state (datagram_sequence_numbers (0, []))) 7"
    by (simp add: datagram_sequence_numbers_def)
  show ?thesis
    using
      epoch_0_dispatch [OF refl refl,
        where sz = 4 and readbuf = "[]"
          and raw_input = "raw_input_of False [0x16, 3, 3, 0, 4, 1, 2, 3, 4]"
          and sn = "Some (stream_sequence_numbers (0, 0))" and rec = empty_rec
          and gcs = "Map.empty :: u16 \<Rightarrow> (u8 list \<times> u8 list) Connection_Cipher_State option"]
      epoch_0_dispatch [OF refl refl,
        where sz = 2 and readbuf = "[]"
          and raw_input =
            "raw_input_of True [0x16, 254, 253, 0, 0, 0, 0, 0, 0, 0, 7, 0, 2, 0xAA, 0xBB]"
          and sn = "Some (datagram_sequence_numbers (0, []))" and s = 7 and rec = empty_rec
          and gcs = "Map.empty :: u16 \<Rightarrow> (u8 list \<times> u8 list) Connection_Cipher_State option"]
    by (simp add: raw_input_of_def empty_rec_def tls12_def dtls12_def make_uint16_small sb acc
        TLS_HEADER_SIZE_def DTLS_HEADER_SIZE_def MAX_CIPHERTEXT_SIZE_def
        is_datagram_protocol_def advance_def st dg)
qed

text \<open>
  The stream reader on scenario S1 with a sequence number object of epoch 0: the
  object comes back unchanged, although \<^verbatim>\<open>read_accept\<close> would have advanced it.
\<close>

theorem tls_epoch_0_counterexample:
  "read_tls_record [] (raw_input_of False [0x16, 3, 3, 0, 4, 1, 2, 3, 4]) empty_rec
     (Some (stream_sequence_numbers (0, 0)))
     (Map.empty :: u16 \<Rightarrow> (u8 list \<times> u8 list) Connection_Cipher_State option)
   = Inr \<lparr>res_needed = 0, res_readbuf = [],
          res_raw_input = \<lparr>raw_data = [], raw_consumed = 9, raw_is_datagram = False\<rparr>,
          res_rec = \<lparr>rec_data = [1, 2, 3, 4], rec_sequence = 0, rec_protocol_version = tls12,
                     rec_type = Wire_Type 0x16\<rparr>,
          res_sequence_numbers = Some (stream_sequence_numbers (0, 0)),
          res_cipherstates = Map.empty\<rparr>
   \<and> seq_read_accept 0 (stream_sequence_numbers (0, 0)) = stream_sequence_numbers (1, 0)
   \<and> stream_sequence_numbers (1, 0) \<noteq> stream_sequence_numbers (0, 0)"
proof -
  have w: "[0x16, 3, 3, 0, 4, 1, 2, 3, 4]
           = [] @ raw_data (raw_input_of False [0x16, 3, 3, 0, 4, 1, 2, 3, 4 :: u8])"
    by (simp add: raw_input_of_def)
  have "read_tls_record [] (raw_input_of False [0x16, 3, 3, 0, 4, 1, 2, 3, 4]) empty_rec
     (Some (stream_sequence_numbers (0, 0)))
     (Map.empty :: u16 \<Rightarrow> (u8 list \<times> u8 list) Connection_Cipher_State option)
     = tls_dispatch [0x16, 3, 3, 0, 4, 1, 2, 3, 4]
         \<lparr>raw_data = [], raw_consumed = 9, raw_is_datagram = False\<rparr>
         (empty_rec\<lparr>rec_protocol_version := tls12\<rparr>) 4
         (Some (stream_sequence_numbers (0, 0))) Map.empty"
    using read_tls_record_complete [OF w, of 4 empty_rec
        "Some (stream_sequence_numbers (0, 0))"
        "Map.empty :: u16 \<Rightarrow> (u8 list \<times> u8 list) Connection_Cipher_State option"]
    by (simp add: make_uint16_small TLS_HEADER_SIZE_def is_datagram_protocol_def
        MAX_CIPHERTEXT_SIZE_def advance_def raw_input_of_def tls12_def)
  moreover have "stream_sequence_numbers (1, 0) \<noteq> stream_sequence_numbers (0, 0)"
  proof
    assume "stream_sequence_numbers (1, 0) = stream_sequence_numbers (0, 0)"
    then have "seq_state (stream_sequence_numbers (1, 0))
               = seq_state (stream_sequence_numbers (0, 0))"
      by simp
    then show False
      by (simp add: stream_sequence_numbers_def)
  qed
  ultimately show ?thesis
    by (simp add: tls_dispatch_def empty_rec_def tls12_def TLS_HEADER_SIZE_def
        stream_sequence_numbers_def seq_read_accept_def)
qed

lemma dtls_dispatch_returns:
  "\<exists>r. dtls_dispatch rb raw rec sz sn gcs = Inr r \<and> res_needed r = 0 \<and> res_readbuf r = []"
  by (simp add: dtls_dispatch_def Let_def split: option.splits prod.splits)

lemma read_dtls_record_returns:
  assumes short: "length readbuf \<le> DTLS_HEADER_SIZE"
  shows "\<exists>r. read_dtls_record readbuf raw rec sn gcs = Inr r
             \<and> res_needed r = 0 \<and> res_readbuf r = []"
proof (cases "13 \<le> length (readbuf @ raw_data raw)")
  case False
  then have "fill_buffer_to readbuf raw 13
             = (13 - (length readbuf + length (raw_data raw)), readbuf @ raw_data raw,
                advance (length (raw_data raw)) raw)"
    by (intro fill_buffer_to_short) simp
  then show ?thesis
    using False by (simp add: read_dtls_record_def DTLS_HEADER_SIZE_def)
next
  case True
  define w where "w = readbuf @ raw_data raw"
  define rb1 where "rb1 = take (max 13 (length readbuf)) w"
  define raw1 where "raw1 = advance (max 13 (length readbuf) - length readbuf) raw"
  define sz where "sz = unat (make_uint16 (rb1 ! 11) (rb1 ! 12))"
  from True have e: "13 \<le> length w" by (simp add: w_def)
  note f = header_only [OF w_def e rb1_def raw1_def]
  have len1: "length rb1 = 13"
    using short e by (simp add: rb1_def DTLS_HEADER_SIZE_def max_def)
  have fill: "\<exists>k rb2 raw2. fill_buffer_to rb1 raw1 (13 + sz) = (k, rb2, raw2)
                \<and> (k = 0 \<longrightarrow> length rb2 = 13 + sz)"
  proof (cases "13 + sz \<le> length rb1 + length (raw_data raw1)")
    case True
    then show ?thesis
      using fill_buffer_to_enough [of rb1 "13 + sz" raw1] len1 by simp
  next
    case False
    then show ?thesis
      using fill_buffer_to_short [of rb1 raw1 "13 + sz"] by simp
  qed
  then obtain k rb2 raw2 where k: "fill_buffer_to rb1 raw1 (13 + sz) = (k, rb2, raw2)"
    and k0: "k = 0 \<longrightarrow> length rb2 = 13 + sz"
    by blast
  show ?thesis
    unfolding read_dtls_record_def DTLS_HEADER_SIZE_def f(1)
    using dtls_dispatch_returns [of rb2 raw2 _ sz sn gcs] k0
    by (simp add: Let_def len1 sz_def [symmetric] k)
qed

lemma dtls_throw_dropped:
  assumes short: "length readbuf \<le> DTLS_HEADER_SIZE"
    and throws: "dtls_try_block_throws readbuf raw rec sn gcs"
  shows "\<exists>r. read_dtls_record readbuf raw rec sn gcs = Inr r
             \<and> rec_type (res_rec r) = NO_RECORD \<and> res_sequence_numbers r = sn"
proof -
  define w where "w = readbuf @ raw_data raw"
  define sz where "sz = unat (make_uint16 (w ! 11) (w ! 12))"
  define version where "version = \<lparr>major_version = w ! 1, minor_version = w ! 2\<rparr>"
  define s where "s = load_be (drop 3 w)"
  define epoch where "epoch = (ucast (drop_bit 48 s) :: u16)"
  from throws have "DTLS_HEADER_SIZE + sz \<le> length w
      \<and> is_datagram_protocol version
      \<and> sz \<le> MAX_CIPHERTEXT_SIZE
      \<and> (case sn of Some q \<Rightarrow> \<not> already_seen q (seq_state q) s | None \<Rightarrow> True)
      \<and> epoch \<noteq> 0
      \<and> (case gcs epoch of None \<Rightarrow> True
           | Some cs \<Rightarrow> fst (decrypt_record (rec_data rec)
               (take sz (drop DTLS_HEADER_SIZE w)) s version (Wire_Type (w ! 0)) cs) \<noteq> None)"
    unfolding dtls_try_block_throws_def Let_def w_def sz_def version_def s_def epoch_def .
  then have enough: "DTLS_HEADER_SIZE + sz \<le> length w"
    and ver: "is_datagram_protocol \<lparr>major_version = w ! 1, minor_version = w ! 2\<rparr>"
    and le: "sz \<le> MAX_CIPHERTEXT_SIZE"
    and fresh: "(case sn of Some q \<Rightarrow> \<not> already_seen q (seq_state q) s | None \<Rightarrow> True)"
    and epoch: "epoch \<noteq> 0"
    and fails: "(case gcs epoch of None \<Rightarrow> True
                 | Some cs \<Rightarrow> fst (decrypt_record (rec_data rec)
                     (take sz (drop DTLS_HEADER_SIZE w)) s version (Wire_Type (w ! 0)) cs) \<noteq> None)"
    unfolding version_def by blast+
  have fits: "length readbuf \<le> DTLS_HEADER_SIZE + sz"
    using short by simp
  have c: "read_dtls_record readbuf raw rec sn gcs =
           dtls_dispatch (take (DTLS_HEADER_SIZE + sz) w)
             (advance (DTLS_HEADER_SIZE + sz - length readbuf) raw)
             (rec\<lparr>rec_protocol_version := version\<rparr>) sz sn gcs"
    using read_dtls_record_complete [OF w_def sz_def fits enough ver le, of rec sn gcs]
    by (simp add: version_def)
  have d: "drop DTLS_HEADER_SIZE (take (DTLS_HEADER_SIZE + sz) w)
           = take sz (drop DTLS_HEADER_SIZE w)"
    by (simp add: drop_take)
  have h: "take (DTLS_HEADER_SIZE + sz) w ! 0 = w ! 0"
    by (simp add: DTLS_HEADER_SIZE_def)
  have s': "load_be (drop 3 (take (DTLS_HEADER_SIZE + sz) w)) = s"
    by (simp add: s_def load_be_drop_take DTLS_HEADER_SIZE_def)
  have seen: "\<not> (case sn of Some q \<Rightarrow> already_seen q (seq_state q) s | None \<Rightarrow> False)"
    using fresh by (cases sn) simp_all
  show ?thesis
    unfolding c dtls_dispatch_def d h s'
    using seen epoch fails
    by (auto simp add: Let_def epoch_def [symmetric] split: option.splits prod.splits)
qed

lemma toy_lookup_ok: "\<forall>epoch cs. toy_lookup fmt epoch = Some cs \<longrightarrow> cipher_state_ok cs"
  by (cases fmt) (simp_all add: toy_lookup_def toy_cs_def cipher_state_ok_def)

lemma bad_tag_throws:
  "dtls_try_block_throws []
     (raw_input_of True [23, 254, 253, 0, 1, 0, 0, 0, 0, 0, 5, 0, 13,
                         0, 1, 0, 0, 0, 0, 0, 5, 91, 88, 89, 94, 81])
     empty_rec (Some (datagram_sequence_numbers (1, []))) (toy_lookup AEAD_IMPLICIT_4)"
proof -
  have l: "load_be [0, 1, 0, 0, 0, 0, 0, 5, 0, 13, 0, 1, 0, 0, 0, 0, 0, 5, 91, 88, 89, 94, 81]
           = 0x0001000000000005"
    by (simp add: load_be_def)
  have e: "(ucast (drop_bit 48 (0x0001000000000005 :: u64)) :: u16) = 1"
    by simp
  have sz: "unat (make_uint16 0 13) = 13"
    by (simp add: make_uint16_def)
  have d: "fst (decrypt_record [] [0, 1, 0, 0, 0, 0, 0, 5, 91, 88, 89, 94, 81]
             0x0001000000000005 dtls12 (Wire_Type 23) (toy_cs toy_decryption AEAD_IMPLICIT_4))
           = Some (Engine_Error 0)"
    by (simp add: decrypt_record_def aead_nonce_read_def toy_cs_def toy_decryption_def
        copy_at_def format_ad_bytes store_be_bytes toy_tag_def dtls12_def Let_def)
  show ?thesis
    by (simp add: dtls_try_block_throws_def raw_input_of_def l e sz d toy_lookup_def
        DTLS_HEADER_SIZE_def MAX_CIPHERTEXT_SIZE_def is_datagram_protocol_def empty_rec_def
        datagram_sequence_numbers_def dtls12_def [symmetric])
qed

text \<open>
  Claim C2. The datagram reader, called with a buffer that holds no more than a
  header and with cipher states as the constructor builds them, never throws: it
  returns 0 with an empty buffer. Whenever the datagram is a complete, fresh record of
  a non-zero epoch and anything in the \<^verbatim>\<open>try\<close> block throws (the cipher state is
  missing, the nonce cannot be extracted, the length guard trips, the engine rejects
  the tag or fails in any other way), the record's type is \<open>NO_RECORD\<close> and the
  sequence number object is as before.
\<close>

theorem dtls_silent_drop:
  assumes "length readbuf \<le> DTLS_HEADER_SIZE"
    and "\<forall>epoch cs. get_cipherstate epoch = Some cs \<longrightarrow> cipher_state_ok cs"
  shows "\<exists>r. read_dtls_record readbuf raw_input rec sn get_cipherstate = Inr r
             \<and> res_needed r = 0 \<and> res_readbuf r = []
             \<and> (dtls_try_block_throws readbuf raw_input rec sn get_cipherstate
                  \<longrightarrow> rec_type (res_rec r) = NO_RECORD \<and> res_sequence_numbers r = sn)"
  using read_dtls_record_returns [OF assms(1), of raw_input rec sn get_cipherstate]
    dtls_throw_dropped [OF assms(1), of raw_input rec sn get_cipherstate]
  by auto

theorem dtls_silent_drop_witness:
  "dtls_try_block_throws []
     (raw_input_of True [23, 254, 253, 0, 1, 0, 0, 0, 0, 0, 5, 0, 13,
                         0, 1, 0, 0, 0, 0, 0, 5, 91, 88, 89, 94, 81])
     empty_rec (Some (datagram_sequence_numbers (1, []))) (toy_lookup AEAD_IMPLICIT_4)
   \<and> (\<exists>r. read_dtls_record []
          (raw_input_of True [23, 254, 253, 0, 1, 0, 0, 0, 0, 0, 5, 0, 13,
                              0, 1, 0, 0, 0, 0, 0, 5, 91, 88, 89, 94, 81])
          empty_rec (Some (datagram_sequence_numbers (1, []))) (toy_lookup AEAD_IMPLICIT_4)
          = Inr r
        \<and> res_needed r = 0 \<and> res_readbuf r = [] \<and> rec_type (res_rec r) = NO_RECORD
        \<and> res_sequence_numbers r = Some (datagram_sequence_numbers (1, [])))"
  using bad_tag_throws
    dtls_silent_drop [OF _ toy_lookup_ok [of AEAD_IMPLICIT_4],
      where readbuf = "[]" and raw_input = "raw_input_of True [23, 254, 253, 0, 1, 0, 0, 0, 0, 0, 5, 0, 13,
                          0, 1, 0, 0, 0, 0, 0, 5, 91, 88, 89, 94, 81]"
        and rec = empty_rec and sn = "Some (datagram_sequence_numbers (1, []))"]
  by (simp add: DTLS_HEADER_SIZE_def)

section \<open>Delivering a record in pieces\<close>

lemma forget_cursor_tls_dispatch:
  "forget_cursor (tls_dispatch rb raw1 rec sz sn gcs)
   = forget_cursor (tls_dispatch rb raw2 rec sz sn gcs)"
  by (simp add: tls_dispatch_def forget_cursor_def Let_def
      split: option.splits prod.splits)

lemma read_tls_record_incomplete:
  assumes w: "w = readbuf @ raw_data raw"
    and bytes: "bytes = w @ rest" and rest: "rest \<noteq> []"
    and sz: "sz = unat (make_uint16 (bytes ! 3) (bytes ! 4))"
    and len: "length bytes = TLS_HEADER_SIZE + sz"
    and ver: "\<not> is_datagram_protocol version"
    and version: "version = \<lparr>major_version = bytes ! 1, minor_version = bytes ! 2\<rparr>"
    and pos: "0 < sz" and le: "sz \<le> MAX_CIPHERTEXT_SIZE"
  shows "\<exists>k rec'. read_tls_record readbuf raw rec sn gcs
           = Inr \<lparr>res_needed = k, res_readbuf = w,
                  res_raw_input = advance (length (raw_data raw)) raw,
                  res_rec = rec', res_sequence_numbers = sn, res_cipherstates = gcs\<rparr>
         \<and> 0 < k
         \<and> rec'\<lparr>rec_protocol_version := version\<rparr> = rec\<lparr>rec_protocol_version := version\<rparr>"
proof (cases "length w < 5")
  case True
  then have short: "length readbuf + length (raw_data raw) < 5"
    by (simp add: w)
  then have "length readbuf < 5"
    by simp
  then show ?thesis
    using short fill_buffer_to_short [OF short]
    by (simp add: read_tls_record_def TLS_HEADER_SIZE_def w)
next
  case False
  define rb1 where "rb1 = take (max 5 (length readbuf)) w"
  define raw1 where "raw1 = advance (max 5 (length readbuf) - length readbuf) raw"
  from False have e: "5 \<le> length w" by simp
  note f = header_only [OF w e rb1_def raw1_def]
  have lw: "length w < 5 + sz"
    using len rest by (cases rest) (simp_all add: bytes TLS_HEADER_SIZE_def)
  have nb: "\<And>i. i < 5 \<Longrightarrow> rb1 ! i = bytes ! i"
    using f(3) e by (simp add: bytes nth_append)
  have n: "rb1 ! Suc 0 = bytes ! Suc 0" "rb1 ! 2 = bytes ! 2" "rb1 ! 3 = bytes ! 3"
    "rb1 ! 4 = bytes ! 4"
    using nb [of 1] nb [of 2] nb [of 3] nb [of 4] by simp_all
  have l5: "\<not> length rb1 < 5"
    using f(2) by simp
  have m: "length readbuf \<le> max 5 (length readbuf)" "max 5 (length readbuf) \<le> length w"
    using e by (simp_all add: w)
  have app1: "rb1 @ raw_data raw1 = w"
    using m by (simp add: rb1_def raw1_def w)
  then have "length rb1 + length (raw_data raw1) = length w"
    by (metis length_append)
  then have short2: "length rb1 + length (raw_data raw1) < 5 + sz"
    using lw by simp
  have adv: "advance (length (raw_data raw1)) raw1 = advance (length (raw_data raw)) raw"
    using m by (simp add: raw1_def w)
  have h2: "fill_buffer_to rb1 raw1 (5 + sz)
            = (5 + sz - length w, w, advance (length (raw_data raw)) raw)"
    using fill_buffer_to_short [OF short2] app1 adv
      \<open>length rb1 + length (raw_data raw1) = length w\<close>
    by simp
  show ?thesis
    unfolding read_tls_record_def TLS_HEADER_SIZE_def f(1)
    using ver pos le lw
    by (simp add: Let_def n l5 sz [symmetric] h2 version)
qed

lemma concat_last_nonempty: "xs \<noteq> [] \<Longrightarrow> last xs \<noteq> [] \<Longrightarrow> concat xs \<noteq> []"
  by (induction xs) (auto split: if_splits)

lemma deliver_pieces:
  assumes sz: "sz = unat (make_uint16 (bytes ! 3) (bytes ! 4))"
    and len: "length bytes = TLS_HEADER_SIZE + sz"
    and ver: "\<not> is_datagram_protocol version"
    and version: "version = \<lparr>major_version = bytes ! 1, minor_version = bytes ! 2\<rparr>"
    and pos: "0 < sz" and le: "sz \<le> MAX_CIPHERTEXT_SIZE"
  shows "pieces \<noteq> [] \<Longrightarrow> last pieces \<noteq> [] \<Longrightarrow> readbuf @ concat pieces = bytes
         \<Longrightarrow> rec'\<lparr>rec_protocol_version := version\<rparr> = rec\<lparr>rec_protocol_version := version\<rparr>
         \<Longrightarrow> \<exists>res. deliver pieces readbuf rec' sn gcs = Some res
                  \<and> forget_cursor res
                    = forget_cursor (tls_dispatch bytes raw0
                        (rec\<lparr>rec_protocol_version := version\<rparr>) sz sn gcs)"
proof (induction pieces readbuf rec' sn gcs rule: deliver.induct)
  case (1 readbuf rec' sn gcs)
  then show ?case by simp
next
  case (2 piece readbuf rec' sn gcs)
  define raw where "raw = \<lparr>raw_data = piece, raw_consumed = 0, raw_is_datagram = False\<rparr>"
  have w: "bytes = readbuf @ raw_data raw"
    using "2.prems"(3) by (simp add: raw_def)
  have fits: "length readbuf \<le> TLS_HEADER_SIZE + sz"
    using len w by simp
  have "read_tls_record readbuf raw rec' sn gcs =
           tls_dispatch (take (TLS_HEADER_SIZE + sz) bytes)
             (advance (TLS_HEADER_SIZE + sz - length readbuf) raw)
             (rec'\<lparr>rec_protocol_version := version\<rparr>) sz sn gcs"
    using read_tls_record_complete [OF w sz fits _ _ pos le, of rec' sn gcs] ver len
    by (simp add: version)
  then have "read_tls_record readbuf raw rec' sn gcs =
           tls_dispatch bytes (advance (TLS_HEADER_SIZE + sz - length readbuf) raw)
             (rec\<lparr>rec_protocol_version := version\<rparr>) sz sn gcs"
    using len "2.prems"(4) by simp
  then show ?case
    using forget_cursor_tls_dispatch [of bytes _ _ sz sn gcs raw0]
    by (simp add: raw_def [symmetric])
next
  case (3 piece next_piece pieces readbuf rec' sn gcs)
  define raw where "raw = \<lparr>raw_data = piece, raw_consumed = 0, raw_is_datagram = False\<rparr>"
  define w where "w = readbuf @ raw_data raw"
  define rest where "rest = concat (next_piece # pieces)"
  have bytes: "bytes = w @ rest"
    using "3.prems"(3) by (simp add: w_def rest_def raw_def)
  have "last (next_piece # pieces) \<noteq> []"
    using "3.prems"(2) by simp
  then have rest: "rest \<noteq> []"
    unfolding rest_def by (intro concat_last_nonempty) simp_all
  from read_tls_record_incomplete [OF w_def bytes rest sz len ver version pos le, of rec' sn gcs]
  obtain k rec'' where r: "read_tls_record readbuf raw rec' sn gcs
           = Inr \<lparr>res_needed = k, res_readbuf = w,
                  res_raw_input = advance (length (raw_data raw)) raw,
                  res_rec = rec'', res_sequence_numbers = sn, res_cipherstates = gcs\<rparr>"
    and k: "0 < k"
    and v: "rec''\<lparr>rec_protocol_version := version\<rparr> = rec'\<lparr>rec_protocol_version := version\<rparr>"
    by blast
  have ih: "\<exists>res. deliver (next_piece # pieces) w rec'' sn gcs = Some res
                  \<and> forget_cursor res
                    = forget_cursor (tls_dispatch bytes raw0
                        (rec\<lparr>rec_protocol_version := version\<rparr>) sz sn gcs)"
  proof -
    have a: "w @ concat (next_piece # pieces) = bytes"
      using bytes by (simp add: rest_def)
    have b: "rec''\<lparr>rec_protocol_version := version\<rparr> = rec\<lparr>rec_protocol_version := version\<rparr>"
      using v "3.prems"(4) by simp
    have c: "last (next_piece # pieces) \<noteq> []"
      using "3.prems"(2) by simp
    show ?thesis
      using "3.IH" [OF r [unfolded raw_def]] k a b c by simp
  qed
  show ?case
    using ih k by (simp add: r [unfolded raw_def])
qed

lemma scenario_S1:
  "read_tls_record [] \<lparr>raw_data = [0x16, 3, 3, 0, 4, 1, 2, 3, 4], raw_consumed = 0,
                         raw_is_datagram = False\<rparr> empty_rec
     (None :: (u64 \<times> u16) Connection_Sequence_Numbers option)
     (Map.empty :: u16 \<Rightarrow> (u8 list \<times> u8 list) Connection_Cipher_State option)
   = Inr \<lparr>res_needed = 0, res_readbuf = [],
          res_raw_input = \<lparr>raw_data = [], raw_consumed = 9, raw_is_datagram = False\<rparr>,
          res_rec = \<lparr>rec_data = [1, 2, 3, 4], rec_sequence = 0, rec_protocol_version = tls12,
                     rec_type = Wire_Type 0x16\<rparr>,
          res_sequence_numbers = None, res_cipherstates = Map.empty\<rparr>"
proof -
  have w: "[0x16, 3, 3, 0, 4, 1, 2, 3, 4]
           = [] @ raw_data \<lparr>raw_data = [0x16, 3, 3, 0, 4, 1, 2, 3, 4 :: u8], raw_consumed = 0,
                         raw_is_datagram = False\<rparr>"
    by simp
  show ?thesis
    using read_tls_record_complete [OF w, of 4 empty_rec
        "None :: (u64 \<times> u16) Connection_Sequence_Numbers option"
        "Map.empty :: u16 \<Rightarrow> (u8 list \<times> u8 list) Connection_Cipher_State option"]
    by (simp add: make_uint16_small TLS_HEADER_SIZE_def is_datagram_protocol_def
        MAX_CIPHERTEXT_SIZE_def advance_def tls12_def tls_dispatch_def empty_rec_def)
qed

text \<open>
  Claim C9. Let \<open>bytes\<close> be a complete stream record: a header with a stream
  version and a length field \<open>0 < sz \<le> MAX_CIPHERTEXT_SIZE\<close>, followed by \<open>sz\<close>
  bytes. Cut it into pieces at any boundaries (the last piece not empty) and hand the
  pieces to successive calls of \<^verbatim>\<open>read_tls_record\<close>, starting with an empty buffer.
  Then every call but the last returns a positive count of bytes still needed, and the
  last call returns what a single call on all the bytes returns: the same return
  value, record (type, version, sequence number, data), buffer, sequence numbers and
  cipher states, or the same exception. The closed instance is scenario S2.
\<close>

theorem incremental_parse:
  assumes "concat pieces = bytes" and "pieces \<noteq> []" and "last pieces \<noteq> []"
    and "sz = unat (make_uint16 (bytes ! 3) (bytes ! 4))"
    and "length bytes = TLS_HEADER_SIZE + sz"
    and "\<not> is_datagram_protocol \<lparr>major_version = bytes ! 1, minor_version = bytes ! 2\<rparr>"
    and "0 < sz" and "sz \<le> MAX_CIPHERTEXT_SIZE"
  shows "\<exists>res. deliver pieces [] rec sn gcs = Some res
           \<and> forget_cursor res
             = forget_cursor (read_tls_record []
                 \<lparr>raw_data = bytes, raw_consumed = 0, raw_is_datagram = False\<rparr> rec sn gcs)"
proof -
  define version where "version = \<lparr>major_version = bytes ! 1, minor_version = bytes ! 2\<rparr>"
  define raw where "raw = \<lparr>raw_data = bytes, raw_consumed = 0, raw_is_datagram = False\<rparr>"
  have w: "bytes = [] @ raw_data raw"
    by (simp add: raw_def)
  have "read_tls_record [] raw rec sn gcs =
           tls_dispatch (take (TLS_HEADER_SIZE + sz) bytes)
             (advance (TLS_HEADER_SIZE + sz - length ([] :: u8 list)) raw)
             (rec\<lparr>rec_protocol_version := version\<rparr>) sz sn gcs"
    using read_tls_record_complete [OF w assms(4) _ _ _ assms(7,8), of rec sn gcs] assms(5,6)
    by (simp add: version_def)
  then have single: "read_tls_record [] raw rec sn gcs =
           tls_dispatch bytes (advance (TLS_HEADER_SIZE + sz) raw)
             (rec\<lparr>rec_protocol_version := version\<rparr>) sz sn gcs"
    using assms(5) by simp
  have "\<not> is_datagram_protocol version"
    using assms(6) by (simp add: version_def)
  from deliver_pieces [OF assms(4,5) this version_def assms(7,8) assms(2,3), of "[]" rec rec sn gcs
      "advance (TLS_HEADER_SIZE + sz) raw"] assms(1)
  show ?thesis
    by (simp add: single raw_def [symmetric])
qed

theorem incremental_parse_witness:
  "concat [[0x16, 3, 3], [0], [4, 1, 2, 3, 4]] = [0x16, 3, 3, 0, 4, 1, 2, 3, 4 :: u8]
   \<and> (\<exists>res. deliver [[0x16, 3, 3], [0], [4, 1, 2, 3, 4]] [] empty_rec
          (None :: (u64 \<times> u16) Connection_Sequence_Numbers option)
          (Map.empty :: u16 \<Rightarrow> (u8 list \<times> u8 list) Connection_Cipher_State option)
        = Some res
      \<and> forget_cursor res
        = Inr \<lparr>res_needed = 0, res_readbuf = [],
               res_raw_input = \<lparr>raw_data = [], raw_consumed = 0, raw_is_datagram = False\<rparr>,
               res_rec = \<lparr>rec_data = [1, 2, 3, 4], rec_sequence = 0,
                          rec_protocol_version = tls12, rec_type = Wire_Type 0x16\<rparr>,
               res_sequence_numbers = None, res_cipherstates = Map.empty\<rparr>)"
  using incremental_parse [where pieces = "[[0x16, 3, 3], [0], [4, 1, 2, 3, 4]]"
      and bytes = "[0x16, 3, 3, 0, 4, 1, 2, 3, 4]" and sz = 4 and rec = empty_rec
      and sn = "None :: (u64 \<times> u16) Connection_Sequence_Numbers option"
      and gcs = "Map.empty :: u16 \<Rightarrow> (u8 list \<times> u8 list) Connection_Cipher_State option"]
  by (simp add: scenario_S1 forget_cursor_def make_uint16_small TLS_HEADER_SIZE_def
      MAX_CIPHERTEXT_SIZE_def is_datagram_protocol_def)

section \<open>A record written and read back\<close>


























section \<open>The reference modular inverse computes the inverse\<close>

declare low_zero_bits.simps [simp del]

lemma shift_right_nonneg: "0 \<le> x \<Longrightarrow> shift_right x k = x div 2 ^ k"
  by (cases "x = 0") (simp_all add: shift_right_def)

lemma low_zero_bits_odd_part:
  "0 < n \<Longrightarrow> \<exists>q. n = q * 2 ^ low_zero_bits n \<and> odd q \<and> 0 < q"
proof (induction n rule: low_zero_bits.induct)
  case (1 n)
  show ?case
  proof (cases "odd n")
    case True
    then show ?thesis
      using "1.prems" by (simp add: low_zero_bits.simps [of n])
  next
    case False
    with "1.prems" have h: "0 < n div 2" "\<not> (n \<le> 0 \<or> odd n)"
      by auto
    from "1.IH" [OF h(2) h(1)] obtain q
      where q: "n div 2 = q * 2 ^ low_zero_bits (n div 2)" "odd q" "0 < q"
      by blast
    have k: "low_zero_bits n = Suc (low_zero_bits (n div 2))"
      using h(2) by (simp add: low_zero_bits.simps [of n])
    have "n = 2 * (n div 2)"
      using False by simp
    then have "n = q * 2 ^ low_zero_bits n"
      using q(1) by (simp add: k)
    then show ?thesis
      using q(2,3) by blast
  qed
qed

lemma strip_zero_bits:
  assumes "0 < n"
  shows "odd (shift_right n (low_zero_bits n))"
    and "0 < shift_right n (low_zero_bits n)"
    and "n = shift_right n (low_zero_bits n) * 2 ^ low_zero_bits n"
proof -
  from low_zero_bits_odd_part [OF assms] obtain q
    where q: "n = q * 2 ^ low_zero_bits n" "odd q" "0 < q"
    by blast
  have "n div 2 ^ low_zero_bits n = q"
    by (subst q(1)) simp
  then have s: "shift_right n (low_zero_bits n) = q"
    using assms by (simp add: shift_right_nonneg)
  show "odd (shift_right n (low_zero_bits n))"
    and "0 < shift_right n (low_zero_bits n)"
    and "n = shift_right n (low_zero_bits n) * 2 ^ low_zero_bits n"
    using q by (simp_all add: s)
qed

lemma shift_right_even: "even x \<Longrightarrow> 2 * shift_right x 1 = x"
  by (cases x "0 :: int" rule: linorder_cases) (auto simp add: shift_right_def elim!: evenE)

lemma halve_mod_doubles:
  "odd md \<Longrightarrow> (2 ^ k * halve_mod k B md) mod md = B mod md"
proof (induction k arbitrary: B)
  case 0
  then show ?case by simp
next
  case (Suc k)
  define B1 where "B1 = shift_right (if odd B then B - md else B) 1"
  have "even (if odd B then B - md else B)"
    using Suc.prems by simp
  then have "2 * B1 = (if odd B then B - md else B)"
    unfolding B1_def by (rule shift_right_even)
  then have two: "(2 * B1) mod md = B mod md"
    by (simp split: if_splits)
  have "(2 ^ Suc k * halve_mod (Suc k) B md) mod md = (2 * (2 ^ k * halve_mod k B1 md)) mod md"
    by (simp add: B1_def Let_def mult.assoc)
  also have "\<dots> = (2 * ((2 ^ k * halve_mod k B1 md) mod md)) mod md"
    by (simp add: mod_mult_right_eq)
  also have "\<dots> = (2 * (B1 mod md)) mod md"
    using Suc.IH [OF Suc.prems, of B1] by simp
  also have "\<dots> = B mod md"
    using two by (simp add: mod_mult_right_eq)
  finally show ?case .
qed

lemma add_while_negative_eq:
  "0 < md \<Longrightarrow> add_while_negative D md = Some (if D < 0 then D mod md else D)"
proof (induction "nat (- D)" arbitrary: D rule: less_induct)
  case less
  show ?case
  proof (cases "D < 0")
    case False
    then show ?thesis
      by (simp add: add_while_negative.simps [of D])
  next
    case True
    with less.prems have "nat (- (D + md)) < nat (- D)"
      by simp
    from less.hyps [OF this less.prems]
    have ih: "add_while_negative (D + md) md
              = Some (if D + md < 0 then (D + md) mod md else D + md)" .
    have "\<not> D + md < 0 \<Longrightarrow> D mod md = D + md"
      using True less.prems by (metis add.commute mod_add_self1 mod_pos_pos_trivial
          not_less less_add_same_cancel2 add_less_same_cancel2)
    then show ?thesis
      using True ih by (simp add: add_while_negative.simps [of D])
  qed
qed

lemma sub_while_not_less_eq:
  "0 < md \<Longrightarrow> 0 \<le> D \<Longrightarrow> sub_while_not_less D md = Some (D mod md)"
proof (induction "nat D" arbitrary: D rule: less_induct)
  case less
  show ?case
  proof (cases "D \<ge> md")
    case False
    then show ?thesis
      using less.prems by (simp add: sub_while_not_less.simps [of D])
  next
    case True
    with less.prems have "nat (D - md) < nat D" "0 \<le> D - md"
      by simp_all
    from less.hyps [OF this(1) less.prems(1) this(2)]
    have "sub_while_not_less (D - md) md = Some ((D - md) mod md)" .
    then show ?thesis
      using True by (simp add: sub_while_not_less.simps [of D])
  qed
qed

lemma mod_mult_cancel_coprime:
  fixes a b k md :: int
  assumes "coprime k md" and "(k * a) mod md = (k * b) mod md"
  shows "a mod md = b mod md"
proof -
  have "md dvd k * a - k * b"
    using assms(2) by (simp add: mod_eq_dvd_iff)
  then have "md dvd (a - b) * k"
    by (simp add: algebra_simps)
  then have "md dvd a - b"
    using assms(1) by (simp add: coprime_dvd_mult_left_iff coprime_commute)
  then show ?thesis
    by (simp add: mod_eq_dvd_iff)
qed

lemma halve_mod_congruent:
  fixes B n u' md :: int
  assumes "odd md" and "(B * n) mod md = (u' * 2 ^ k) mod md"
  shows "(halve_mod k B md * n) mod md = u' mod md"
proof -
  have c: "coprime ((2 :: int) ^ k) md"
    using assms(1) by (simp add: coprime_power_left_iff)
  have "(2 ^ k * (halve_mod k B md * n)) mod md = ((2 ^ k * halve_mod k B md) mod md * n) mod md"
    by (simp add: mod_mult_left_eq mult.assoc)
  also have "\<dots> = (B * n) mod md"
    using halve_mod_doubles [OF assms(1), of k B] by (simp add: mod_mult_left_eq)
  also have "\<dots> = (2 ^ k * u') mod md"
    using assms(2) by (simp add: mult.commute)
  finally show ?thesis
    using mod_mult_cancel_coprime [OF c] by blast
qed

lemma gcd_strip_twos:
  fixes u' v' :: int
  assumes "odd u'" and "odd v'" and "odd (u' * 2 ^ i) \<or> odd (v' * 2 ^ j)"
  shows "gcd (u' * 2 ^ i) (v' * 2 ^ j) = gcd u' v'"
proof -
  have cu: "coprime u' (2 ^ j)" and cv: "coprime v' (2 ^ i)"
    using assms(1,2) by (simp_all add: coprime_power_right_iff)
  from assms(3) show ?thesis
  proof
    assume "odd (u' * 2 ^ i)"
    then have "i = 0"
      by (cases i) simp_all
    then show ?thesis
      using cu by (simp add: gcd_mult_right_right_cancel)
  next
    assume "odd (v' * 2 ^ j)"
    then have "j = 0"
      by (cases j) simp_all
    then show ?thesis
      using cv by (simp add: gcd_mult_left_right_cancel)
  qed
qed

lemma inverse_mod_loop_correct:
  assumes md: "odd md" "0 < md"
  shows "0 \<le> u \<Longrightarrow> 0 < v \<Longrightarrow> odd u \<or> odd v
         \<Longrightarrow> (B * n) mod md = u mod md \<Longrightarrow> (D * n) mod md = v mod md
         \<Longrightarrow> \<exists>D'. inverse_mod_loop md u v B D = Some (gcd u v, D')
                  \<and> (D' * n) mod md = gcd u v mod md"
proof (induction "nat (u + v)" arbitrary: u v B D rule: less_induct)
  case less
  show ?case
  proof (cases "u = 0")
    case True
    then show ?thesis
      using less.prems by (simp add: inverse_mod_loop.simps [of md 0 v B D])
  next
    case False
    with less.prems have upos: "0 < u"
      by simp
    define uz where "uz = low_zero_bits u"
    define u' where "u' = shift_right u uz"
    define B' where "B' = halve_mod uz B md"
    define vz where "vz = low_zero_bits v"
    define v' where "v' = shift_right v vz"
    define D' where "D' = halve_mod vz D md"
    note su = strip_zero_bits [OF upos, folded uz_def, folded u'_def]
    note sv = strip_zero_bits [OF less.prems(2), folded vz_def, folded v'_def]
    have Bn: "(B' * n) mod md = u' mod md"
      unfolding B'_def using md(1) less.prems(4) su(3)
      by (intro halve_mod_congruent) simp_all
    have Dn: "(D' * n) mod md = v' mod md"
      unfolding D'_def using md(1) less.prems(5) sv(3)
      by (intro halve_mod_congruent) simp_all
    have g: "gcd u v = gcd u' v'"
      using gcd_strip_twos [OF su(1) sv(1), of uz vz] su(3) sv(3) less.prems(3) by simp
    have ule: "u' \<le> u" and vle: "v' \<le> v"
    proof -
      have "u' * 1 \<le> u' * 2 ^ uz" "v' * 1 \<le> v' * 2 ^ vz"
        using su(2) sv(2) by (simp_all add: mult_le_cancel_left)
      then show "u' \<le> u" "v' \<le> v"
        using su(3) sv(3) by simp_all
    qed
    have step: "inverse_mod_loop md u v B D =
                  (if u' \<ge> v' then inverse_mod_loop md (u' - v') v' (B' - D') D'
                   else inverse_mod_loop md u' (v' - u') B' (D' - B'))"
      using False
      by (simp add: inverse_mod_loop.simps [of md u v B D] Let_def
          uz_def u'_def B'_def vz_def v'_def D'_def)
    show ?thesis
    proof (cases "u' \<ge> v'")
      case True
      have m: "nat (u' - v' + v') < nat (u + v)"
        using ule less.prems(2) su(2) by simp
      have c: "((B' - D') * n) mod md = (u' - v') mod md"
        using mod_diff_cong [OF Bn Dn] by (simp add: left_diff_distrib)
      from less.hyps [OF m _ sv(2) _ c Dn] True sv(1)
      obtain E where "inverse_mod_loop md (u' - v') v' (B' - D') D' = Some (gcd (u' - v') v', E)"
        and "(E * n) mod md = gcd (u' - v') v' mod md"
        by auto
      then show ?thesis
        using True by (simp add: step g gcd_diff1)
    next
      case False
      have m: "nat (u' + (v' - u')) < nat (u + v)"
        using vle upos sv(2) by simp
      have c: "((D' - B') * n) mod md = (v' - u') mod md"
        using mod_diff_cong [OF Dn Bn] by (simp add: left_diff_distrib)
      have gd: "gcd u' (v' - u') = gcd u' v'"
        by (metis gcd.commute gcd_diff1)
      from less.hyps [OF m _ _ _ Bn c] False su(1,2)
      obtain E where "inverse_mod_loop md u' (v' - u') B' (D' - B') = Some (gcd u' (v' - u'), E)"
        and "(E * n) mod md = gcd u' (v' - u') mod md"
        by auto
      then show ?thesis
        using False by (simp add: step g gd)
    qed
  qed
qed

lemma find_unique:
  assumes "r \<in> set xs" and "P r" and "\<forall>y \<in> set xs. P y \<longrightarrow> y = r"
  shows "find P xs = Some r"
  using assms
proof (induction xs)
  case Nil
  then show ?case by simp
next
  case (Cons a xs)
  show ?case
  proof (cases "P a")
    case True
    with Cons.prems(3) have "a = r" by simp
    then show ?thesis using True by simp
  next
    case False
    with Cons.prems have "r \<in> set xs" "\<forall>y \<in> set xs. P y \<longrightarrow> y = r"
      by auto
    from Cons.IH [OF this(1) Cons.prems(2) this(2)] False show ?thesis
      by simp
  qed
qed

lemma inverse_unique:
  fixes x y E md :: int
  assumes inv: "(E * x) mod md = 1" and y: "0 \<le> y" "y < md" "(x * y) mod md = 1"
  shows "y = E mod md"
proof -
  have "y mod md = (y * ((E * x) mod md)) mod md"
    using inv by simp
  also have "\<dots> = (y * (E * x)) mod md"
    by (rule mod_mult_right_eq)
  also have "\<dots> = (E * (x * y)) mod md"
    by (simp only: mult.commute mult.left_commute)
  also have "\<dots> = (E * ((x * y) mod md)) mod md"
    by (rule mod_mult_right_eq [symmetric])
  also have "\<dots> = E mod md"
    using y(3) by simp
  finally show ?thesis
    using y(1,2) by simp
qed

lemma normalise_eq:
  assumes "0 < md"
  shows "(case add_while_negative D md of None \<Rightarrow> None | Some D \<Rightarrow> sub_while_not_less D md)
         = Some (D mod md)"
proof (cases "D < 0")
  case True
  have "0 \<le> D mod md"
    using assms by simp
  then show ?thesis
    using True assms by (simp add: add_while_negative_eq sub_while_not_less_eq)
next
  case False
  then show ?thesis
    using assms by (simp add: add_while_negative_eq sub_while_not_less_eq)
qed

text \<open>
  Claim C10. For an odd modulus of at least 3 and \<open>0 \<le> x < mod\<close> (the arguments
  that \<^verbatim>\<open>fuzz\<close> lets through), \<^verbatim>\<open>inverse_mod_ref\<close> returns, and what it returns is what
  \<^verbatim>\<open>ct_inverse_mod_odd_modulus\<close> is specified to return: the inverse of \<open>x\<close> modulo
  \<open>mod\<close> in \<open>[0, mod)\<close>, or 0 when there is none.
\<close>

theorem inverse_mod_ref_refines:
  assumes "odd md" and "3 \<le> md" and "0 \<le> x" and "x < md"
  shows "inverse_mod_ref x md = Some (ct_inverse_mod_odd_modulus x md)"
proof (cases "x = 0")
  case True
  then show ?thesis
    by (simp add: inverse_mod_ref_def ct_inverse_mod_odd_modulus_def)
next
  case False
  with assms have xpos: "0 < x" and mpos: "0 < md"
    by simp_all
  from inverse_mod_loop_correct [OF assms(1) mpos, of md x 0 x 1] xpos mpos assms(1)
  obtain E where loop: "inverse_mod_loop md md x 0 1 = Some (gcd md x, E)"
    and E: "(E * x) mod md = gcd md x mod md"
    by auto
  show ?thesis
  proof (cases "gcd md x = 1")
    case False
    then show ?thesis
      using \<open>x \<noteq> 0\<close>
      by (simp add: inverse_mod_ref_def ct_inverse_mod_odd_modulus_def loop gcd.commute)
  next
    case True
    then have inv: "(E * x) mod md = 1"
      using E assms(2) by simp
    have ref: "inverse_mod_ref x md = Some (E mod md)"
      using \<open>x \<noteq> 0\<close> True normalise_eq [OF mpos, of E]
      by (simp add: inverse_mod_ref_def loop)
    have "find (\<lambda>y. x * y mod md = 1) [0..md - 1] = Some (E mod md)"
    proof (rule find_unique)
      show "E mod md \<in> set [0..md - 1]"
        using mpos by simp
      show "x * (E mod md) mod md = 1"
        using inv mod_mult_right_eq [of x E md] by (simp only: mult.commute [of x E])
      show "\<forall>y \<in> set [0..md - 1]. x * y mod md = 1 \<longrightarrow> y = E mod md"
        using inverse_unique [OF inv] by simp
    qed
    then show ?thesis
      using \<open>x \<noteq> 0\<close> True
      by (simp add: ref ct_inverse_mod_odd_modulus_def gcd.commute)
  qed
qed

theorem inverse_mod_ref_refines_witness:
  "odd (7 :: int) \<and> (3 :: int) \<le> 7 \<and> (0 :: int) \<le> 3 \<and> (3 :: int) < 7
   \<and> inverse_mod_ref 3 7 = Some 5 \<and> ct_inverse_mod_odd_modulus 3 7 = 5
   \<and> inverse_mod_ref 3 9 = Some 0 \<and> ct_inverse_mod_odd_modulus 3 9 = 0"
proof -
  have "ct_inverse_mod_odd_modulus 3 7 = 5"
    by code_simp
  moreover have "ct_inverse_mod_odd_modulus 3 9 = 0"
    by code_simp
  ultimately show ?thesis
    using inverse_mod_ref_refines [of 7 3] inverse_mod_ref_refines [of 9 3]
    by simp
qed


end
